theory Spec2Isabelle
  imports Complex_Main "HOL-Library.Word"
begin

section \<open>Context window tracking (relay-core.ts, lines 180-243: class ContextTracker)\<close>

text \<open>
  Token counts are natural numbers: every caller passes \<open>charsToTokens(len)\<close>, the constant
  \<open>TOOL_OVERHEAD_PER_TURN\<close> or the backend's \<open>usage.input_tokens\<close>.  Percentages are
  integers.  The nested object \<open>warnings = { pct10, pct5 }\<close> is flattened into two fields.
\<close>

definition CONTEXT_WINDOW :: nat where
  "CONTEXT_WINDOW = 200000"

definition SYSTEM_PROMPT_ESTIMATE :: nat where
  "SYSTEM_PROMPT_ESTIMATE = 18000"

definition TOOL_OVERHEAD_PER_TURN :: nat where
  "TOOL_OVERHEAD_PER_TURN = 500"

text \<open>
  \<open>charsToTokens(chars) = Math.ceil(chars / 3.5)\<close>.  The divisor is a dyadic number and the
  quotient is a multiple of one seventh, so the double quotient has the ceiling of the
  exact one: \<open>\<lceil>2 * chars / 7\<rceil>\<close>.
\<close>

definition charsToTokens :: "nat \<Rightarrow> nat" where
  "charsToTokens chars = (2 * chars + 6) div 7"

record ContextTracker =
  tokens :: nat
  pct10 :: bool
  pct5 :: bool
  lastCompactionNotified :: bool

definition new_tracker :: ContextTracker where
  "new_tracker = \<lparr> tokens = SYSTEM_PROMPT_ESTIMATE, pct10 = False, pct5 = False,
     lastCompactionNotified = False \<rparr>"

definition addTokens :: "nat \<Rightarrow> ContextTracker \<Rightarrow> ContextTracker" where
  "addTokens n t = t\<lparr> tokens := tokens t + n \<rparr>"

definition setTokens :: "nat \<Rightarrow> ContextTracker \<Rightarrow> ContextTracker" where
  "setTokens n t = t\<lparr> tokens := n \<rparr>"

text \<open>
  \<open>Math.round((tokens / CONTEXT_WINDOW) * 100)\<close> is computed in IEEE double arithmetic.
  \<open>Math.round\<close> rounds half up, so on the exact quotient the result would be
  \<open>(tokens + 1000) div 2000\<close>.  The double product differs from the exact one only in the
  last bit; that matters only at the half-way points \<open>tokens = 2000 * k + 1000\<close>, and below
  the clamp there are exactly four of them where the product falls just under \<open>k + 1/2\<close>
  (for instance \<open>(29000 / 200000) * 100 = 14.499999999999998\<close>) and the rounding goes down.
  From 199000 tokens on the rounded value is at least 100 and \<open>Math.min\<close> clamps it.
\<close>

definition round_pct :: "nat \<Rightarrow> int" where
  "round_pct n =
     (if n = 29000 \<or> n = 57000 \<or> n = 113000 \<or> n = 115000
      then (int n + 1000) div 2000 - 1
      else (int n + 1000) div 2000)"

definition usedPct :: "ContextTracker \<Rightarrow> int" where
  "usedPct t = min 100 (round_pct (tokens t))"

definition remainingPct :: "ContextTracker \<Rightarrow> int" where
  "remainingPct t = 100 - usedPct t"

definition reset :: "ContextTracker \<Rightarrow> ContextTracker" where
  "reset t = t\<lparr> tokens := SYSTEM_PROMPT_ESTIMATE, pct10 := False, pct5 := False,
     lastCompactionNotified := False \<rparr>"

text \<open>
  The two messages of \<open>checkWarnings\<close>, each with the interpolated used and remaining
  percentages: \<open>Imminent\<close> is the text ending in "Compaction imminent. ..." (the 5 percent
  threshold), \<open>Approaching\<close> the one ending in "Compaction approaching. ..." (10 percent).
  \<open>None\<close> is \<open>null\<close>.
\<close>

datatype warning = Imminent int int | Approaching int int

definition checkWarnings :: "ContextTracker \<Rightarrow> warning option \<times> ContextTracker" where
  "checkWarnings t =
     (let remaining = remainingPct t; used = usedPct t in
      if remaining \<le> 5 \<and> \<not> pct5 t then (Some (Imminent used remaining), t\<lparr> pct5 := True \<rparr>)
      else if remaining \<le> 10 \<and> \<not> pct10 t
        then (Some (Approaching used remaining), t\<lparr> pct10 := True \<rparr>)
      else (None, t))"

text \<open>A call of one of the tracker's mutating methods, and a sequence of such calls.\<close>

datatype tracker_op = AddTokens nat | SetTokens nat | Reset | CheckWarnings

fun tracker_step :: "ContextTracker \<Rightarrow> tracker_op \<Rightarrow> warning option \<times> ContextTracker" where
  "tracker_step t (AddTokens n) = (None, addTokens n t)"
| "tracker_step t (SetTokens n) = (None, setTokens n t)"
| "tracker_step t Reset = (None, reset t)"
| "tracker_step t CheckWarnings = checkWarnings t"

text \<open>The tracker after a sequence of calls, and what the calls returned, in order.\<close>

fun tracker_run :: "ContextTracker \<Rightarrow> tracker_op list \<Rightarrow> ContextTracker" where
  "tracker_run t [] = t"
| "tracker_run t (x # xs) = tracker_run (snd (tracker_step t x)) xs"

fun tracker_returns :: "ContextTracker \<Rightarrow> tracker_op list \<Rightarrow> warning option list" where
  "tracker_returns t [] = []"
| "tracker_returns t (x # xs) =
     fst (tracker_step t x) # tracker_returns (snd (tracker_step t x)) xs"

fun is_imminent :: "warning option \<Rightarrow> bool" where
  "is_imminent (Some (Imminent u r)) = True"
| "is_imminent _ = False"

fun is_approaching :: "warning option \<Rightarrow> bool" where
  "is_approaching (Some (Approaching u r)) = True"
| "is_approaching _ = False"


section \<open>Message queue (relay-core.ts, lines 757-759 and 1060-1076: enqueue)\<close>











section \<open>JavaScript strings\<close>

text \<open>
  A JavaScript string is a sequence of UTF-16 code units; \<open>length\<close>, \<open>slice\<close> and
  \<open>lastIndexOf\<close> count code units.  \<open>ascii\<close> turns a literal into code units.
\<close>

type_synonym code_unit = "16 word"

type_synonym jsstring = "code_unit list"

definition ascii :: "string \<Rightarrow> jsstring" where
  "ascii s = map (\<lambda>c. of_nat (of_char c)) s"

definition LF :: code_unit where
  "LF = 10"

definition SP :: code_unit where
  "SP = 32"

definition DOT :: code_unit where
  "DOT = 46"

definition QMARK :: code_unit where
  "QMARK = 63"

definition BANG :: code_unit where
  "BANG = 33"

text \<open>
  \<open>s.lastIndexOf(p)\<close>: the greatest index at which \<open>p\<close> occurs in \<open>s\<close>, or \<open>-1\<close>.  The
  recursion looks in the rest of the string first, so an occurrence further right wins.
\<close>

fun lastIndexOf :: "'a list \<Rightarrow> 'a list \<Rightarrow> int" where
  "lastIndexOf [] p = (if p = [] then 0 else - 1)"
| "lastIndexOf (x # xs) p =
     (let r = lastIndexOf xs p in
      if 0 \<le> r then r + 1
      else if take (length p) (x # xs) = p then 0
      else - 1)"

text \<open>\<open>s.includes(p)\<close> (the name \<open>includes\<close> is a keyword here).\<close>

fun js_includes :: "'a list \<Rightarrow> 'a list \<Rightarrow> bool" where
  "js_includes [] p = (p = [])"
| "js_includes (x # xs) p = (take (length p) (x # xs) = p \<or> js_includes xs p)"

text \<open>
  \<open>s.slice(start, end)\<close> and \<open>s.slice(start)\<close>: a negative index counts from the end,
  and both indices are clamped to the string.
\<close>

definition slice_index :: "'a list \<Rightarrow> int \<Rightarrow> int" where
  "slice_index s i = (if i < 0 then max (int (length s) + i) 0 else min i (int (length s)))"

definition slice :: "'a list \<Rightarrow> int \<Rightarrow> int \<Rightarrow> 'a list" where
  "slice s b e = take (nat (slice_index s e - slice_index s b)) (drop (nat (slice_index s b)) s)"

definition slice_from :: "'a list \<Rightarrow> int \<Rightarrow> 'a list" where
  "slice_from s b = drop (nat (slice_index s b)) s"

text \<open>
  \<open>s.trim()\<close> removes white space and line terminators from both ends: TAB, LF, VT, FF,
  CR, SPACE, NBSP, U+1680, U+2000 to U+200A, LS, PS, U+202F, U+205F, U+3000 and the BOM.
\<close>

definition is_white :: "code_unit \<Rightarrow> bool" where
  "is_white c =
     (c = 9 \<or> c = 10 \<or> c = 11 \<or> c = 12 \<or> c = 13 \<or> c = 32 \<or> c = 160 \<or> c = 5760 \<or>
      (8192 \<le> c \<and> c \<le> 8202) \<or> c = 8232 \<or> c = 8233 \<or> c = 8239 \<or> c = 8287 \<or>
      c = 12288 \<or> c = 65279)"

definition trim :: "jsstring \<Rightarrow> jsstring" where
  "trim s = rev (dropWhile is_white (rev (dropWhile is_white s)))"

text \<open>\<open>xs.join(sep)\<close> on an array of strings.\<close>

fun join :: "'a list \<Rightarrow> 'a list list \<Rightarrow> 'a list" where
  "join sep [] = []"
| "join sep [x] = x"
| "join sep (x # y # ys) = x @ sep @ join sep (y # ys)"

section \<open>Flush scheduler (relay-core.ts, lines 940-969: where callAgent cuts the unsent text)\<close>

text \<open>
  The three triggers, on \<open>unsent = currentTurnText.slice(currentTurnSent)\<close>, the clock
  reading \<open>now\<close> and the time of the last flush, both in milliseconds.
\<close>

definition hasParagraphBreak :: "jsstring \<Rightarrow> bool" where
  "hasParagraphBreak unsent = (js_includes unsent [LF, LF] \<and> 80 < length unsent)"

definition isLarge :: "jsstring \<Rightarrow> bool" where
  "isLarge unsent = (400 < length unsent)"

definition isStale :: "int \<Rightarrow> int \<Rightarrow> jsstring \<Rightarrow> bool" where
  "isStale now lastFlush unsent = (3000 < now - lastFlush \<and> 40 < length unsent)"

definition flush_due :: "int \<Rightarrow> int \<Rightarrow> jsstring \<Rightarrow> bool" where
  "flush_due now lastFlush unsent =
     (hasParagraphBreak unsent \<or> isLarge unsent \<or> isStale now lastFlush unsent)"

text \<open>\<open>Math.max\<close> of the four \<open>lastIndexOf\<close> results.\<close>

definition sentenceEnd :: "jsstring \<Rightarrow> int" where
  "sentenceEnd unsent =
     max (max (lastIndexOf unsent [DOT, SP]) (lastIndexOf unsent [DOT, LF]))
         (max (lastIndexOf unsent [QMARK, SP]) (lastIndexOf unsent [BANG, SP]))"

text \<open>
  The comparison \<open>i > unsent.length * 0.3\<close> is made on doubles.  The double nearest to
  three tenths is within a quarter of a unit in the last place of it, so the product is
  the integer \<open>3 * length / 10\<close> whenever that is an integer and is on the same side of
  every integer as the exact product otherwise: the test is \<open>10 * i > 3 * length\<close>.
\<close>

definition past_30_percent :: "int \<Rightarrow> jsstring \<Rightarrow> bool" where
  "past_30_percent i unsent = (3 * int (length unsent) < 10 * i)"

text \<open>The value of \<open>flushEnd\<close> when a flush is due.\<close>

definition flushEnd :: "jsstring \<Rightarrow> int" where
  "flushEnd unsent =
     (if hasParagraphBreak unsent
      then (let paraIdx = lastIndexOf unsent [LF, LF]
            in if 0 < paraIdx then paraIdx else int (length unsent))
      else (let se = sentenceEnd unsent
            in if past_30_percent se unsent then se + 1
               else (let lastSpace = lastIndexOf unsent [SP]
                     in if past_30_percent lastSpace unsent then lastSpace
                        else int (length unsent))))"

section \<open>Telegram relay (relay-core.ts, lines 884-1041: the loop of callAgent over the stream)\<close>

text \<open>
  The messages of the Agent SDK stream, with the fields the loop reads.  A content block
  is a text block or any other block.  \<open>input_tokens = 0\<close> stands for a missing or zero
  \<open>usage.input_tokens\<close>, an empty string for a missing \<open>session_id\<close>, \<open>uuid\<close> or \<open>result\<close>
  (all are tested for truthiness only).  The flag of a system message says whether its
  \<open>message\<close> field is present and matches \<open>/compact/i\<close>.  A message of any other type,
  and an assistant message without content, is \<open>OtherMsg\<close>: no branch of the loop handles
  it.
\<close>

datatype block = TextBlock jsstring | OtherBlock

datatype sdk_message =
    SystemMsg string string bool
  | AssistantMsg "block list" nat string
  | ToolUseMsg
  | ResultMsg jsstring
  | OtherMsg

text \<open>\<open>content.filter(b => b.type === "text").map(b => b.text).join("")\<close>\<close>

fun message_text :: "block list \<Rightarrow> jsstring" where
  "message_text [] = []"
| "message_text (TextBlock t # bs) = t @ message_text bs"
| "message_text (OtherBlock # bs) = message_text bs"

text \<open>
  What the loop hands to the delivery side, recorded in order and never read back: a call
  of \<open>sendResponse\<close> with a chunk of the current turn (with the number of the turn and
  the offsets of \<open>currentTurnText\<close> between which the chunk was cut, before trimming), a
  call of \<open>sendResponse\<close> with the result string, and the two kinds of \<open>ctx.reply\<close>.
\<close>

datatype emission =
    Chunk nat int int jsstring
  | ResultText jsstring
  | CompactionNotice int
  | ContextWarning warning

record relay_run =
  allResponses :: "jsstring list"
  currentTurnText :: jsstring
  currentTurnSent :: int
  lastFlush :: int
  sessionId :: string
  tracker :: ContextTracker
  turn :: nat
  emitted :: "emission list"

text \<open>
  The state when the loop is entered: \<open>lastFlush = Date.now()\<close>, and the tracker has
  counted the user's message.
\<close>

definition start_run :: "int \<Rightarrow> string \<Rightarrow> ContextTracker \<Rightarrow> nat \<Rightarrow> relay_run" where
  "start_run now sid tr userMessageLength =
     \<lparr> allResponses = [], currentTurnText = [], currentTurnSent = 0, lastFlush = now,
       sessionId = sid, tracker = addTokens (charsToTokens userMessageLength) tr,
       turn = 0, emitted = [] \<rparr>"

text \<open>Turn segmenter: a text shorter than the recorded one starts a new turn.\<close>

definition segment :: "jsstring \<Rightarrow> relay_run \<Rightarrow> relay_run" where
  "segment text s =
     (if length text < length (currentTurnText s) \<and> currentTurnText s \<noteq> []
      then s\<lparr> allResponses :=
                (if currentTurnText s \<noteq> [] then allResponses s @ [currentTurnText s]
                 else allResponses s),
              currentTurnText := text, currentTurnSent := 0, turn := Suc (turn s) \<rparr>
      else s\<lparr> currentTurnText := text \<rparr>)"

text \<open>Flush: when a trigger holds and the trimmed chunk is not empty, send it and advance.\<close>

definition flush :: "int \<Rightarrow> relay_run \<Rightarrow> relay_run" where
  "flush now s =
     (let unsent = slice_from (currentTurnText s) (currentTurnSent s) in
      if flush_due now (lastFlush s) unsent
      then (let chunk = trim (slice unsent 0 (flushEnd unsent)) in
            if chunk \<noteq> []
            then s\<lparr> emitted := emitted s @
                       [Chunk (turn s) (currentTurnSent s) (currentTurnSent s + flushEnd unsent)
                          chunk],
                    currentTurnSent := currentTurnSent s + flushEnd unsent,
                    lastFlush := now \<rparr>
            else s)
      else s)"

definition on_system :: "string \<Rightarrow> string \<Rightarrow> bool \<Rightarrow> relay_run \<Rightarrow> relay_run" where
  "on_system subtype sid mentions_compact s =
     (let s1 = (if subtype = ''init'' \<and> sid \<noteq> [] then s\<lparr> sessionId := sid \<rparr> else s) in
      if subtype = ''compaction'' \<or> subtype = ''compact'' \<or> mentions_compact
      then s1\<lparr> tracker := reset (tracker s1),
               emitted := emitted s1 @ [CompactionNotice (usedPct (tracker s1))] \<rparr>
      else s1)"

definition on_assistant :: "int \<Rightarrow> block list \<Rightarrow> nat \<Rightarrow> relay_run \<Rightarrow> relay_run" where
  "on_assistant now blocks input_tokens s =
     (let text = message_text blocks;
          s1 = (if input_tokens \<noteq> 0 then s\<lparr> tracker := setTokens input_tokens (tracker s) \<rparr>
                else s)
      in if text \<noteq> [] then flush now (segment text s1) else s1)"

definition on_tool_use :: "relay_run \<Rightarrow> relay_run" where
  "on_tool_use s = s\<lparr> tracker := addTokens TOOL_OVERHEAD_PER_TURN (tracker s) \<rparr>"

text \<open>
  The result message: the current turn is collected, the rest of it is sent whatever the
  triggers say (\<open>currentTurnSent\<close> is left as it is), the result string is sent when no
  text was collected, and the tracker counts the response and may warn.
\<close>

definition on_result :: "jsstring \<Rightarrow> relay_run \<Rightarrow> relay_run" where
  "on_result result s =
     (let s1 = (if currentTurnText s \<noteq> []
                then s\<lparr> allResponses := allResponses s @ [currentTurnText s] \<rparr> else s);
          fullResponse = join [LF, LF] (allResponses s1);
          remaining = trim (slice_from (currentTurnText s1) (currentTurnSent s1));
          s2 = (if remaining \<noteq> []
                then s1\<lparr> emitted := emitted s1 @
                          [Chunk (turn s1) (currentTurnSent s1)
                             (int (length (currentTurnText s1))) remaining] \<rparr>
                else s1);
          s3 = (if fullResponse = [] \<and> result \<noteq> []
                then s2\<lparr> emitted := emitted s2 @ [ResultText result],
                         allResponses := allResponses s2 @ [result] \<rparr>
                else s2);
          finalResponse = join [LF, LF] (allResponses s3);
          checked = checkWarnings (addTokens (charsToTokens (length finalResponse)) (tracker s3))
      in s3\<lparr> tracker := snd checked,
              emitted := (case fst checked of None \<Rightarrow> emitted s3
                          | Some w \<Rightarrow> emitted s3 @ [ContextWarning w]) \<rparr>)"

text \<open>One message, handled at clock reading \<open>now\<close>, and a whole stream.\<close>

fun stream_step :: "relay_run \<Rightarrow> int \<times> sdk_message \<Rightarrow> relay_run" where
  "stream_step s (now, SystemMsg subtype sid mentions_compact) =
     on_system subtype sid mentions_compact s"
| "stream_step s (now, AssistantMsg blocks input_tokens uuid) =
     on_assistant now blocks input_tokens s"
| "stream_step s (now, ToolUseMsg) = on_tool_use s"
| "stream_step s (now, ResultMsg result) = on_result result s"
| "stream_step s (now, OtherMsg) = s"

definition stream_run :: "relay_run \<Rightarrow> (int \<times> sdk_message) list \<Rightarrow> relay_run" where
  "stream_run s ms = foldl stream_step s ms"

fun is_result :: "int \<times> sdk_message \<Rightarrow> bool" where
  "is_result (now, ResultMsg result) = True"
| "is_result _ = False"

text \<open>
  Reading the record of a run: the offsets of the chunks of turn \<open>n\<close>, in the order sent;
  and whether a list of offset pairs starts at \<open>p\<close> and each pair starts where the one
  before it ended, in which case the position reached is returned.
\<close>

fun chunks_of_turn :: "nat \<Rightarrow> emission list \<Rightarrow> (int \<times> int) list" where
  "chunks_of_turn n [] = []"
| "chunks_of_turn n (Chunk k a b c # es) =
     (if k = n then (a, b) # chunks_of_turn n es else chunks_of_turn n es)"
| "chunks_of_turn n (e # es) = chunks_of_turn n es"

fun chain :: "int \<Rightarrow> (int \<times> int) list \<Rightarrow> int option" where
  "chain p [] = Some p"
| "chain p ((a, b) # r) = (if a = p \<and> a \<le> b then chain b r else None)"

section \<open>Terminal relay (terminal-relay.ts, lines 227-305: the text branch of callAgent)\<close>

text \<open>
  The terminal keeps \<open>currentTurnPrinted\<close> and the identifier of the last message with
  text.  \<open>written\<close> records the strings written to standard output by this branch: the
  separator of a new turn (as the empty string) and the new characters.
\<close>

record terminal_run =
  allResponsesT :: "jsstring list"
  currentTurnTextT :: jsstring
  currentTurnPrinted :: int
  currentMsgUuid :: string
  turnT :: nat
  written :: "jsstring list"

definition start_terminal :: terminal_run where
  "start_terminal = \<lparr> allResponsesT = [], currentTurnTextT = [], currentTurnPrinted = 0,
     currentMsgUuid = [], turnT = 0, written = [] \<rparr>"

definition isNewTurn :: "jsstring \<Rightarrow> string \<Rightarrow> terminal_run \<Rightarrow> bool" where
  "isNewTurn text msgUuid s =
     ((msgUuid \<noteq> [] \<and> currentMsgUuid s \<noteq> [] \<and> msgUuid \<noteq> currentMsgUuid s) \<or>
      (msgUuid = [] \<and> length text < length (currentTurnTextT s) \<and> currentTurnTextT s \<noteq> []))"

definition terminal_on_text :: "jsstring \<Rightarrow> string \<Rightarrow> terminal_run \<Rightarrow> terminal_run" where
  "terminal_on_text text msgUuid s =
     (let new = isNewTurn text msgUuid s;
          s1 = (if msgUuid \<noteq> [] then s\<lparr> currentMsgUuid := msgUuid \<rparr> else s);
          s2 = (if new
                then s1\<lparr> allResponsesT :=
                           (if currentTurnTextT s1 \<noteq> []
                            then allResponsesT s1 @ [currentTurnTextT s1] else allResponsesT s1),
                         written := written s1 @ [[]],
                         currentTurnTextT := text, currentTurnPrinted := 0,
                         turnT := Suc (turnT s1) \<rparr>
                else s1\<lparr> currentTurnTextT := text \<rparr>);
          newContent = slice_from (currentTurnTextT s2) (currentTurnPrinted s2)
      in if newContent \<noteq> []
         then s2\<lparr> written := written s2 @ [newContent],
                  currentTurnPrinted := int (length (currentTurnTextT s2)) \<rparr>
         else s2)"

section \<open>Occurrences, word boundaries and last occurrences\<close>

text \<open>The pattern \<open>p\<close> occurs in \<open>s\<close> at index \<open>i\<close>.\<close>

definition occurs_at :: "'a list \<Rightarrow> 'a list \<Rightarrow> nat \<Rightarrow> bool" where
  "occurs_at s p i = (i + length p \<le> length s \<and> take (length p) (drop i s) = p)"


definition sentence_mark_at :: "jsstring \<Rightarrow> nat \<Rightarrow> bool" where
  "sentence_mark_at u i =
     (occurs_at u [DOT, SP] i \<or> occurs_at u [DOT, LF] i \<or> occurs_at u [QMARK, SP] i \<or>
      occurs_at u [BANG, SP] i)"









section \<open>Properties of a run\<close>

text \<open>
  The sent offset is inside the current turn's text; the chunks of the current turn
  follow one another from offset 0 up to the sent offset, the chunks of every earlier turn
  follow one another from 0, and no chunk belongs to a later turn; the chunks of every
  turn follow one another from 0.
\<close>

definition offsets_ok :: "relay_run \<Rightarrow> bool" where
  "offsets_ok s =
     (0 \<le> currentTurnSent s \<and> currentTurnSent s \<le> int (length (currentTurnText s)))"

definition chunks_ok :: "relay_run \<Rightarrow> bool" where
  "chunks_ok s =
     (chain 0 (chunks_of_turn (turn s) (emitted s)) = Some (currentTurnSent s) \<and>
      (\<forall>n. n < turn s \<longrightarrow> chain 0 (chunks_of_turn n (emitted s)) \<noteq> None) \<and>
      (\<forall>n. turn s < n \<longrightarrow> chunks_of_turn n (emitted s) = []))"

definition in_order :: "emission list \<Rightarrow> bool" where
  "in_order es = (\<forall>n. chain 0 (chunks_of_turn n es) \<noteq> None)"

section \<open>Approval on Telegram (relay-core.ts, lines 811-830 and 1604-1638)\<close>

text \<open>
  The \<open>n\<close>-th call of \<open>requestTelegramApproval\<close> creates promise \<open>n\<close>.  The map
  \<open>pendingApprovals\<close> takes an id to the entry \<open>{ resolve, timer }\<close> of a promise; an
  entry is represented by the number of its promise.  \<open>timers\<close> are the armed timeouts,
  oldest first, each with its promise, the time at which it is due and the id its callback
  has captured.  \<open>clock\<close> is the time in milliseconds.  Two fields record what happens
  and are never read: \<open>resolutions\<close> lists the calls of a promise's \<open>resolve\<close> (and the
  immediate \<open>return false\<close>), \<open>answers\<close> the replies to button presses.  A promise
  resolves to \<open>true\<close> for \<open>Approved\<close> and to \<open>false\<close> for \<open>Rejected\<close> and \<open>TimedOut\<close>.
\<close>

definition APPROVAL_TIMEOUT :: int where
  "APPROVAL_TIMEOUT = 10 * 60 * 1000"

datatype resolution = Approved | Rejected | TimedOut

datatype answer = NotAuthorized | UnknownAction | Expired | Decided bool

record approval_gate =
  pendingApprovals :: "jsstring \<rightharpoonup> nat"
  timers :: "(nat \<times> int \<times> jsstring) list"
  resolutions :: "(nat \<times> resolution) list"
  answers :: "answer list"
  requests :: nat
  clock :: int

definition new_gate :: approval_gate where
  "new_gate = \<lparr> pendingApprovals = Map.empty, timers = [], resolutions = [], answers = [],
     requests = 0, clock = 0 \<rparr>"

text \<open>
  \<open>requestTelegramApproval\<close>, given the id that \<open>Math.random\<close> produced and whether
  \<open>currentCtx\<close> is set: without a context the answer is \<open>false\<close> at once; otherwise
  (once the message with the two buttons has been sent) the timeout is armed and the entry
  stored under the id, replacing an entry with that id.
\<close>

definition requestTelegramApproval :: "jsstring \<Rightarrow> bool \<Rightarrow> approval_gate \<Rightarrow> approval_gate" where
  "requestTelegramApproval ident has_ctx s =
     (if \<not> has_ctx
      then s\<lparr> resolutions := resolutions s @ [(requests s, Rejected)],
              requests := Suc (requests s) \<rparr>
      else s\<lparr> timers := timers s @ [(requests s, clock s + APPROVAL_TIMEOUT, ident)],
              pendingApprovals := (pendingApprovals s)(ident \<mapsto> requests s),
              requests := Suc (requests s) \<rparr>)"

text \<open>The callback of a timeout: \<open>pendingApprovals.delete(id); resolve(false)\<close>.\<close>

definition timeout_fires :: "approval_gate \<Rightarrow> nat \<times> int \<times> jsstring \<Rightarrow> approval_gate" where
  "timeout_fires s t =
     s\<lparr> pendingApprovals := (pendingApprovals s)(snd (snd t) := None),
        resolutions := resolutions s @ [(fst t, TimedOut)],
        timers := filter (\<lambda>x. fst x \<noteq> fst t) (timers s) \<rparr>"

text \<open>Time passes: the clock reaches \<open>now\<close> and the timeouts that are due fire, oldest first.\<close>

definition tick :: "int \<Rightarrow> approval_gate \<Rightarrow> approval_gate" where
  "tick now s =
     foldl timeout_fires (s\<lparr> clock := max (clock s) now \<rparr>)
       (filter (\<lambda>t. fst (snd t) \<le> max (clock s) now) (timers s))"

text \<open>
  The match of \<open>/^(approve|reject)_(.+)$/\<close> on the callback data: the action and the id,
  which is not empty and holds no line terminator.
\<close>

definition line_terminator :: "code_unit \<Rightarrow> bool" where
  "line_terminator c = (c = 10 \<or> c = 13 \<or> c = 8232 \<or> c = 8233)"

definition parse_callback :: "jsstring \<Rightarrow> (bool \<times> jsstring) option" where
  "parse_callback d =
     (if take 8 d = ascii ''approve_'' \<and> drop 8 d \<noteq> [] \<and> \<not> list_ex line_terminator (drop 8 d)
      then Some (True, drop 8 d)
      else if take 7 d = ascii ''reject_'' \<and> drop 7 d \<noteq> [] \<and>
              \<not> list_ex line_terminator (drop 7 d)
      then Some (False, drop 7 d)
      else None)"

text \<open>
  The handler of \<open>callback_query:data\<close>, given whether the presser is the allowed user (or
  no user id is configured) and the callback data.
\<close>

definition callback_query :: "bool \<Rightarrow> jsstring \<Rightarrow> approval_gate \<Rightarrow> approval_gate" where
  "callback_query authorized d s =
     (if \<not> authorized then s\<lparr> answers := answers s @ [NotAuthorized] \<rparr>
      else case parse_callback d of
        None \<Rightarrow> s\<lparr> answers := answers s @ [UnknownAction] \<rparr>
      | Some (approve, ident) \<Rightarrow>
          (case pendingApprovals s ident of
             None \<Rightarrow> s\<lparr> answers := answers s @ [Expired] \<rparr>
           | Some p \<Rightarrow>
               s\<lparr> timers := filter (\<lambda>x. fst x \<noteq> p) (timers s),
                  pendingApprovals := (pendingApprovals s)(ident := None),
                  resolutions := resolutions s @ [(p, if approve then Approved else Rejected)],
                  answers := answers s @ [Decided approve] \<rparr>))"

datatype gate_event = Request jsstring bool | Callback bool jsstring | Tick int

fun gate_step :: "approval_gate \<Rightarrow> gate_event \<Rightarrow> approval_gate" where
  "gate_step s (Request ident has_ctx) = requestTelegramApproval ident has_ctx s"
| "gate_step s (Callback authorized d) = callback_query authorized d s"
| "gate_step s (Tick now) = tick now s"

definition gate_run :: "gate_event list \<Rightarrow> approval_gate" where
  "gate_run es = foldl gate_step new_gate es"

text \<open>How often promise \<open>p\<close> has been resolved.\<close>

definition resolved_times :: "nat \<Rightarrow> approval_gate \<Rightarrow> nat" where
  "resolved_times p s = length (filter (\<lambda>r. fst r = p) (resolutions s))"

text \<open>
  What every step of the Telegram gate keeps.  An entry of the map belongs to an armed
  timeout that has captured the entry's id; armed timeouts belong to distinct promises
  that exist and are unresolved; no promise is resolved twice; and a promise that exists
  and is unresolved has its timeout armed.  Armed timeouts are due in the future, at most
  the timeout away.
\<close>

definition gate_inv :: "approval_gate \<Rightarrow> bool" where
  "gate_inv s =
     ((\<forall>ident p. pendingApprovals s ident = Some p \<longrightarrow> (\<exists>d. (p, d, ident) \<in> set (timers s))) \<and>
      distinct (map fst (timers s)) \<and>
      (\<forall>t \<in> set (timers s). fst t < requests s \<and> fst t \<notin> fst ` set (resolutions s)) \<and>
      distinct (map fst (resolutions s)) \<and>
      (\<forall>r \<in> set (resolutions s). fst r < requests s) \<and>
      (\<forall>p < requests s. p \<notin> fst ` set (resolutions s) \<longrightarrow> p \<in> fst ` set (timers s)))"

definition time_inv :: "approval_gate \<Rightarrow> bool" where
  "time_inv s =
     (\<forall>t \<in> set (timers s). clock s < fst (snd t) \<and> fst (snd t) \<le> clock s + APPROVAL_TIMEOUT)"

section \<open>Approval on the terminal (terminal-relay.ts, lines 88-101)\<close>

text \<open>
  One call of \<open>requestTerminalApproval\<close>: the promise waits for the callback of
  \<open>rl.question\<close>, which runs once, on the next line of input, and resolves the promise to
  whether the line, in lower case, starts with \<open>y\<close>.  The function arms no timeout, so the
  passing of time changes nothing.
\<close>

datatype terminal_approval = Waiting | Answered bool

datatype terminal_event = Line string | Elapse int

definition says_yes :: "string \<Rightarrow> bool" where
  "says_yes a = (take 1 a = ''y'' \<or> take 1 a = ''Y'')"

fun terminal_step :: "terminal_approval \<Rightarrow> terminal_event \<Rightarrow> terminal_approval" where
  "terminal_step Waiting (Line a) = Answered (says_yes a)"
| "terminal_step Waiting (Elapse ms) = Waiting"
| "terminal_step (Answered b) e = Answered b"

definition requestTerminalApproval :: "terminal_event list \<Rightarrow> terminal_approval" where
  "requestTerminalApproval es = foldl terminal_step Waiting es"

fun first_line :: "terminal_event list \<Rightarrow> string option" where
  "first_line [] = None"
| "first_line (Line a # es) = Some a"
| "first_line (Elapse ms # es) = first_line es"

section \<open>Transcript sync (relay-core.ts, lines 1766-1888: parseLine and the loop of syncFile)\<close>

text \<open>
  The values \<open>JSON.parse\<close> returns, and \<open>undefined\<close> for a missing property.  An object
  is the list of its own properties in lookup order.  A number is the real it denotes.
\<close>

datatype jsval =
    Undefined
  | Null
  | Bool bool
  | Num real
  | Str jsstring
  | Arr "jsval list"
  | Obj "(jsstring \<times> jsval) list"

datatype js_error = SyntaxError | TypeError

text \<open>
  \<open>v.key\<close> for the keys read here (none of them is a property of a prototype): reading
  a property of \<open>null\<close> or \<open>undefined\<close> throws, a primitive or an array has none of
  these properties.
\<close>

fun get_property :: "jsval \<Rightarrow> jsstring \<Rightarrow> js_error + jsval" where
  "get_property Undefined k = Inl TypeError"
| "get_property Null k = Inl TypeError"
| "get_property (Obj kvs) k = (case map_of kvs k of None \<Rightarrow> Inr Undefined | Some v \<Rightarrow> Inr v)"
| "get_property v k = Inr Undefined"

fun truthy :: "jsval \<Rightarrow> bool" where
  "truthy Undefined = False"
| "truthy Null = False"
| "truthy (Bool b) = b"
| "truthy (Num x) = (x \<noteq> 0)"
| "truthy (Str s) = (s \<noteq> [])"
| "truthy (Arr vs) = True"
| "truthy (Obj kvs) = True"

text \<open>
  What the program takes from outside: \<open>JSON.parse\<close> (a value, or a \<open>SyntaxError\<close>),
  the conversion of a number to a string, \<open>new Date().toISOString()\<close>, and the helpers
  \<open>redactSecrets\<close>, \<open>processMemoryIntents\<close> and \<open>detectSignals\<close> (with signals of type
  \<open>'g\<close>).  \<open>saveMessage\<close> and \<open>appendSessionLog\<close> catch their own errors.
\<close>

record 'g sync_env =
  JSON_parse :: "jsstring \<Rightarrow> js_error + jsval"
  Number_toString :: "real \<Rightarrow> jsstring"
  now_iso :: jsstring
  redactSecrets :: "jsstring \<Rightarrow> jsstring"
  processMemoryIntents :: "jsstring \<Rightarrow> jsstring"
  detectSignals :: "jsstring \<Rightarrow> 'g list"

text \<open>
  The string an element contributes to \<open>Array.prototype.join\<close>: nothing for \<open>null\<close> and
  \<open>undefined\<close>, the elements joined by a comma for an array, \<open>[object Object]\<close> for an
  object, unless it has an own property \<open>toString\<close>, which cannot be called and makes the
  conversion throw.
\<close>

fun element_string :: "(real \<Rightarrow> jsstring) \<Rightarrow> jsval \<Rightarrow> js_error + jsstring"
  and elements_string :: "(real \<Rightarrow> jsstring) \<Rightarrow> jsstring \<Rightarrow> jsval list \<Rightarrow> js_error + jsstring"
where
  "element_string f Undefined = Inr []"
| "element_string f Null = Inr []"
| "element_string f (Bool b) = Inr (if b then ascii ''true'' else ascii ''false'')"
| "element_string f (Num x) = Inr (f x)"
| "element_string f (Str s) = Inr s"
| "element_string f (Arr vs) = elements_string f (ascii '','') vs"
| "element_string f (Obj kvs) =
     (if map_of kvs (ascii ''toString'') = None then Inr (ascii ''[object Object]'')
      else Inl TypeError)"
| "elements_string f sep [] = Inr []"
| "elements_string f sep [v] = element_string f v"
| "elements_string f sep (v # w # vs) =
     (case element_string f v of
        Inl e \<Rightarrow> Inl e
      | Inr a \<Rightarrow> (case elements_string f sep (w # vs) of
                   Inl e \<Rightarrow> Inl e
                 | Inr b \<Rightarrow> Inr (a @ sep @ b)))"

text \<open>\<open>content.filter(b => b.type === "text")\<close> and \<open>.map(b => b.text)\<close>.\<close>

fun filter_text_blocks :: "jsval list \<Rightarrow> js_error + jsval list" where
  "filter_text_blocks [] = Inr []"
| "filter_text_blocks (b # bs) =
     (case get_property b (ascii ''type'') of
        Inl e \<Rightarrow> Inl e
      | Inr t \<Rightarrow> (case filter_text_blocks bs of
                   Inl e \<Rightarrow> Inl e
                 | Inr r \<Rightarrow> Inr (if t = Str (ascii ''text'') then b # r else r)))"

fun map_text :: "jsval list \<Rightarrow> js_error + jsval list" where
  "map_text [] = Inr []"
| "map_text (b # bs) =
     (case get_property b (ascii ''text'') of
        Inl e \<Rightarrow> Inl e
      | Inr t \<Rightarrow> (case map_text bs of Inl e \<Rightarrow> Inl e | Inr r \<Rightarrow> Inr (t # r)))"

datatype message_kind = user_text | assistant_text

record ParsedMessage =
  pm_type :: message_kind
  pm_text :: jsstring
  pm_timestamp :: jsval
  pm_sessionId :: jsval

definition skipTypes :: "jsval list" where
  "skipTypes = [Str (ascii ''file-history-snapshot''), Str (ascii ''progress''),
     Str (ascii ''queue-operation''), Str (ascii ''system'')]"

text \<open>\<open>a || b\<close>\<close>

definition or_else :: "jsval \<Rightarrow> jsval \<Rightarrow> jsval" where
  "or_else a b = (if truthy a then a else b)"

text \<open>
  The body of the \<open>try\<close> block of \<open>parseLine\<close>, on the parsed value: \<open>Inl\<close> is a thrown
  exception, \<open>Inr None\<close> is \<open>return null\<close>.
\<close>

definition parse_value :: "'g sync_env \<Rightarrow> jsval \<Rightarrow> js_error + ParsedMessage option" where
  "parse_value env d =
     (case get_property d (ascii ''type'') of
        Inl e \<Rightarrow> Inl e
      | Inr ty \<Rightarrow>
          if ty \<in> set skipTypes then Inr None
          else (case get_property d (ascii ''message'') of
             Inl e \<Rightarrow> Inl e
           | Inr msg \<Rightarrow>
               if \<not> truthy msg then Inr None
               else (case (get_property d (ascii ''timestamp''),
                           get_property d (ascii ''sessionId''),
                           get_property msg (ascii ''role''),
                           get_property msg (ascii ''content'')) of
                  (Inr ts, Inr sid, Inr role, Inr content) \<Rightarrow>
                    (let timestamp = or_else ts (Str (now_iso env));
                         session = or_else sid (Str [])
                     in case content of
                          Str c \<Rightarrow>
                            if ty = Str (ascii ''user'') \<and> role = Str (ascii ''user'')
                            then Inr (Some \<lparr> pm_type = user_text, pm_text = c,
                                   pm_timestamp = timestamp, pm_sessionId = session \<rparr>)
                            else Inr None
                        | Arr blocks \<Rightarrow>
                            if ty = Str (ascii ''assistant'') \<and> role = Str (ascii ''assistant'')
                            then (case filter_text_blocks blocks of
                                Inl e \<Rightarrow> Inl e
                              | Inr tb \<Rightarrow>
                                  (case map_text tb of
                                     Inl e \<Rightarrow> Inl e
                                   | Inr textParts \<Rightarrow>
                                       if 0 < length textParts
                                       then (case elements_string (Number_toString env) []
                                                    textParts of
                                           Inl e \<Rightarrow> Inl e
                                         | Inr joined \<Rightarrow>
                                             Inr (Some \<lparr> pm_type = assistant_text,
                                               pm_text = joined, pm_timestamp = timestamp,
                                               pm_sessionId = session \<rparr>))
                                       else Inr None))
                            else Inr None
                        | _ \<Rightarrow> Inr None)
                | _ \<Rightarrow> Inl TypeError)))"

definition parseLine_try :: "'g sync_env \<Rightarrow> jsstring \<Rightarrow> js_error + ParsedMessage option" where
  "parseLine_try env line =
     (case JSON_parse env line of Inl e \<Rightarrow> Inl e | Inr d \<Rightarrow> parse_value env d)"

text \<open>\<open>parseLine\<close>: the \<open>try\<close> block, and \<open>catch { return null; }\<close> around it.\<close>

definition parseLine :: "'g sync_env \<Rightarrow> jsstring \<Rightarrow> js_error + ParsedMessage option" where
  "parseLine env line =
     (case parseLine_try env line of Inl e \<Rightarrow> Inr None | Inr r \<Rightarrow> Inr r)"

text \<open>
  The loop of \<open>syncFile\<close>.  \<open>saved\<close> records the calls of \<open>saveMessage\<close> (each followed by
  \<open>appendSessionLog\<close> with the same role and text) and \<open>signalled\<close> the calls of
  \<open>recordSignals\<close>; neither is read.
\<close>

datatype role = User | Assistant

record 'g sync_state =
  lastAssistantText :: jsstring
  synced :: nat
  saved :: "(role \<times> jsstring) list"
  signalled :: "'g list list"

definition sync_start :: "'g sync_state" where
  "sync_start = \<lparr> lastAssistantText = [], synced = 0, saved = [], signalled = [] \<rparr>"

definition flushAssistant :: "'g sync_env \<Rightarrow> 'g sync_state \<Rightarrow> 'g sync_state" where
  "flushAssistant env s =
     (if lastAssistantText s = [] then s
      else s\<lparr> saved := saved s @
                 [(Assistant, processMemoryIntents env (redactSecrets env (lastAssistantText s)))],
              lastAssistantText := [], synced := Suc (synced s) \<rparr>)"

definition sync_message :: "'g sync_env \<Rightarrow> 'g sync_state \<Rightarrow> ParsedMessage \<Rightarrow> 'g sync_state" where
  "sync_message env s parsed =
     (case pm_type parsed of
        user_text \<Rightarrow>
          (let s1 = flushAssistant env s;
               signals = detectSignals env (pm_text parsed)
           in s1\<lparr> saved := saved s1 @ [(User, redactSecrets env (pm_text parsed))],
                  signalled := (if 0 < length signals then signalled s1 @ [signals]
                                else signalled s1),
                  synced := Suc (synced s1) \<rparr>)
      | assistant_text \<Rightarrow>
          (if length (lastAssistantText s) \<le> length (pm_text parsed)
           then s\<lparr> lastAssistantText := pm_text parsed \<rparr>
           else (flushAssistant env s)\<lparr> lastAssistantText := pm_text parsed \<rparr>))"

text \<open>
  The \<open>for\<close> loop over the lines: an exception of \<open>parseLine\<close> would leave the loop, a
  \<open>null\<close> is skipped by \<open>continue\<close>.
\<close>

fun sync_loop :: "'g sync_env \<Rightarrow> 'g sync_state \<Rightarrow> jsstring list \<Rightarrow> js_error + 'g sync_state" where
  "sync_loop env s [] = Inr s"
| "sync_loop env s (line # lines) =
     (case parseLine env line of
        Inl e \<Rightarrow> Inl e
      | Inr None \<Rightarrow> sync_loop env s lines
      | Inr (Some parsed) \<Rightarrow> sync_loop env (sync_message env s parsed) lines)"

text \<open>The messages of the lines that parse, in the order of the lines.\<close>

fun decoded :: "'g sync_env \<Rightarrow> jsstring list \<Rightarrow> ParsedMessage list" where
  "decoded env [] = []"
| "decoded env (line # lines) =
     (case parseLine env line of
        Inr (Some parsed) \<Rightarrow> parsed # decoded env lines
      | _ \<Rightarrow> decoded env lines)"

text \<open>
  A sample environment for concrete runs: its \<open>JSON.parse\<close> knows three lines, named by
  what they hold (the line \<open>null\<close>, a progress record, and a user record with the content
  \<open>hello\<close>), and rejects every other line; the helpers change nothing and detect no
  signal.
\<close>

definition sample_env :: "nat sync_env" where
  "sample_env =
     \<lparr> JSON_parse = (\<lambda>l.
         if l = ascii ''null'' then Inr Null
         else if l = ascii ''progress record''
           then Inr (Obj [(ascii ''type'', Str (ascii ''progress''))])
         else if l = ascii ''user record''
           then Inr (Obj [(ascii ''type'', Str (ascii ''user'')),
                          (ascii ''message'', Obj [(ascii ''role'', Str (ascii ''user'')),
                             (ascii ''content'', Str (ascii ''hello''))])])
         else Inl SyntaxError),
       Number_toString = (\<lambda>x. []),
       now_iso = ascii ''2026-01-01T00:00:00.000Z'',
       redactSecrets = (\<lambda>t. t),
       processMemoryIntents = (\<lambda>t. t),
       detectSignals = (\<lambda>t. []) \<rparr>"

section \<open>Facts about the tracker\<close>



lemma usedPct_flags [simp]:
  "usedPct (t\<lparr> pct5 := b \<rparr>) = usedPct t" "usedPct (t\<lparr> pct10 := b \<rparr>) = usedPct t"
  by (simp_all add: usedPct_def)

lemma remainingPct_flags [simp]:
  "remainingPct (t\<lparr> pct5 := b \<rparr>) = remainingPct t"
  "remainingPct (t\<lparr> pct10 := b \<rparr>) = remainingPct t"
  by (simp_all add: remainingPct_def)

lemma addTokens_flags [simp]:
  "pct5 (addTokens n t) = pct5 t" "pct10 (addTokens n t) = pct10 t"
  "addTokens n (t\<lparr> pct10 := b \<rparr>) = (addTokens n t)\<lparr> pct10 := b \<rparr>"
  by (simp_all add: addTokens_def)

lemma checkWarnings_tokens [simp]: "tokens (snd (checkWarnings t)) = tokens t"
  by (simp add: checkWarnings_def Let_def)

lemma checkWarnings_pct5_kept: "pct5 t \<Longrightarrow> pct5 (snd (checkWarnings t))"
  by (simp add: checkWarnings_def Let_def)

lemma checkWarnings_pct10_kept: "pct10 t \<Longrightarrow> pct10 (snd (checkWarnings t))"
  by (simp add: checkWarnings_def Let_def)

lemma checkWarnings_imminent_sets:
  "is_imminent (fst (checkWarnings t)) \<Longrightarrow> \<not> pct5 t \<and> pct5 (snd (checkWarnings t))"
  by (simp add: checkWarnings_def Let_def split: if_splits)

lemma checkWarnings_approaching_sets:
  "is_approaching (fst (checkWarnings t)) \<Longrightarrow> \<not> pct10 t \<and> pct10 (snd (checkWarnings t))"
  by (simp add: checkWarnings_def Let_def split: if_splits)

lemma step_pct5_kept: "x \<noteq> Reset \<Longrightarrow> pct5 t \<Longrightarrow> pct5 (snd (tracker_step t x))"
  by (cases x) (simp_all add: addTokens_def setTokens_def checkWarnings_pct5_kept)

lemma step_pct10_kept: "x \<noteq> Reset \<Longrightarrow> pct10 t \<Longrightarrow> pct10 (snd (tracker_step t x))"
  by (cases x) (simp_all add: addTokens_def setTokens_def checkWarnings_pct10_kept)

lemma step_imminent_sets:
  "is_imminent (fst (tracker_step t x)) \<Longrightarrow> \<not> pct5 t \<and> pct5 (snd (tracker_step t x))"
  by (cases x) (simp_all add: checkWarnings_imminent_sets)

lemma step_approaching_sets:
  "is_approaching (fst (tracker_step t x)) \<Longrightarrow> \<not> pct10 t \<and> pct10 (snd (tracker_step t x))"
  by (cases x) (simp_all add: checkWarnings_approaching_sets)

lemma no_imminent_once_set:
  "Reset \<notin> set xs \<Longrightarrow> pct5 t \<Longrightarrow> filter is_imminent (tracker_returns t xs) = []"
proof (induction xs arbitrary: t)
  case Nil
  then show ?case by simp
next
  case (Cons x xs)
  from Cons.prems have nr: "x \<noteq> Reset" "Reset \<notin> set xs" by auto
  have "\<not> is_imminent (fst (tracker_step t x))"
    using step_imminent_sets [of t x] Cons.prems(2) by blast
  moreover have "filter is_imminent (tracker_returns (snd (tracker_step t x)) xs) = []"
    using Cons.IH [OF nr(2)] step_pct5_kept [OF nr(1) Cons.prems(2)] by simp
  ultimately show ?case by simp
qed

lemma no_approaching_once_set:
  "Reset \<notin> set xs \<Longrightarrow> pct10 t \<Longrightarrow> filter is_approaching (tracker_returns t xs) = []"
proof (induction xs arbitrary: t)
  case Nil
  then show ?case by simp
next
  case (Cons x xs)
  from Cons.prems have nr: "x \<noteq> Reset" "Reset \<notin> set xs" by auto
  have "\<not> is_approaching (fst (tracker_step t x))"
    using step_approaching_sets [of t x] Cons.prems(2) by blast
  moreover have "filter is_approaching (tracker_returns (snd (tracker_step t x)) xs) = []"
    using Cons.IH [OF nr(2)] step_pct10_kept [OF nr(1) Cons.prems(2)] by simp
  ultimately show ?case by simp
qed

lemma imminent_at_most_once:
  "Reset \<notin> set xs \<Longrightarrow> length (filter is_imminent (tracker_returns t xs)) \<le> 1"
proof (induction xs arbitrary: t)
  case Nil
  then show ?case by simp
next
  case (Cons x xs)
  from Cons.prems have nr: "Reset \<notin> set xs" by auto
  show ?case
  proof (cases "is_imminent (fst (tracker_step t x))")
    case True
    then have "pct5 (snd (tracker_step t x))" using step_imminent_sets by blast
    then show ?thesis using True no_imminent_once_set [OF nr] by simp
  next
    case False
    then show ?thesis using Cons.IH [OF nr] by simp
  qed
qed

lemma approaching_at_most_once:
  "Reset \<notin> set xs \<Longrightarrow> length (filter is_approaching (tracker_returns t xs)) \<le> 1"
proof (induction xs arbitrary: t)
  case Nil
  then show ?case by simp
next
  case (Cons x xs)
  from Cons.prems have nr: "Reset \<notin> set xs" by auto
  show ?case
  proof (cases "is_approaching (fst (tracker_step t x))")
    case True
    then have "pct10 (snd (tracker_step t x))" using step_approaching_sets by blast
    then show ?thesis using True no_approaching_once_set [OF nr] by simp
  next
    case False
    then show ?thesis using Cons.IH [OF nr] by simp
  qed
qed




lemma token_updates_keep_flags:
  "\<forall>x\<in>set xs. x \<noteq> Reset \<and> x \<noteq> CheckWarnings \<Longrightarrow>
     pct5 (tracker_run t xs) = pct5 t \<and> pct10 (tracker_run t xs) = pct10 t"
proof (induction xs arbitrary: t)
  case Nil
  then show ?case by simp
next
  case (Cons x xs)
  then show ?case by (cases x) (simp_all add: addTokens_def setTokens_def)
qed

section \<open>Facts about the message queue\<close>







section \<open>Facts about strings\<close>

lemma take_eq_length: "take (length p) s = p \<Longrightarrow> length p \<le> length s"
proof -
  assume "take (length p) s = p"
  then have "length (take (length p) s) = length p" by simp
  then show ?thesis by simp
qed

lemma occurs_at_0: "occurs_at s p 0 = (take (length p) s = p)"
  using take_eq_length [of p s] by (auto simp: occurs_at_def)

lemma occurs_at_Suc: "occurs_at (x # xs) p (Suc i) = occurs_at xs p i"
  by (simp add: occurs_at_def)

lemma lastIndexOf_lower: "- 1 \<le> lastIndexOf s p"
  by (induction s) (simp_all add: Let_def)

lemma lastIndexOf_occurs:
  "0 \<le> lastIndexOf s p \<Longrightarrow> occurs_at s p (nat (lastIndexOf s p))"
proof (induction s)
  case Nil
  then show ?case by (simp add: occurs_at_def split: if_splits)
next
  case (Cons x xs)
  show ?case
  proof (cases "0 \<le> lastIndexOf xs p")
    case True
    then have "occurs_at xs p (nat (lastIndexOf xs p))" by (rule Cons.IH)
    then have "occurs_at (x # xs) p (Suc (nat (lastIndexOf xs p)))"
      by (simp add: occurs_at_Suc)
    moreover have "nat (lastIndexOf (x # xs) p) = Suc (nat (lastIndexOf xs p))"
      using True by (simp add: Let_def nat_add_distrib)
    ultimately show ?thesis by simp
  next
    case False
    with Cons.prems have "take (length p) (x # xs) = p" and "lastIndexOf (x # xs) p = 0"
      by (simp_all add: Let_def split: if_splits)
    then show ?thesis by (simp add: occurs_at_0)
  qed
qed

lemma lastIndexOf_greatest: "occurs_at s p j \<Longrightarrow> int j \<le> lastIndexOf s p"
proof (induction s arbitrary: j)
  case Nil
  then show ?case by (simp add: occurs_at_def)
next
  case (Cons x xs)
  show ?case
  proof (cases j)
    case 0
    with Cons.prems have "take (length p) (x # xs) = p" by (simp add: occurs_at_0)
    then show ?thesis using 0 by (simp add: Let_def)
  next
    case (Suc k)
    with Cons.prems have "occurs_at xs p k" by (simp add: occurs_at_Suc)
    then have "int k \<le> lastIndexOf xs p" by (rule Cons.IH)
    then show ?thesis using Suc by (simp add: Let_def)
  qed
qed

lemma lastIndexOf_bound:
  "0 \<le> lastIndexOf s p \<Longrightarrow> lastIndexOf s p + int (length p) \<le> int (length s)"
proof -
  assume nn: "0 \<le> lastIndexOf s p"
  then have "occurs_at s p (nat (lastIndexOf s p))" by (rule lastIndexOf_occurs)
  then have "nat (lastIndexOf s p) + length p \<le> length s" by (simp add: occurs_at_def)
  with nn show ?thesis by linarith
qed


lemma lastIndexOf_absent_iff: "(lastIndexOf s p = - 1) = (\<forall>j. \<not> occurs_at s p j)"
proof
  assume "lastIndexOf s p = - 1"
  then show "\<forall>j. \<not> occurs_at s p j" using lastIndexOf_greatest [of s p] by fastforce
next
  assume a: "\<forall>j. \<not> occurs_at s p j"
  have "\<not> 0 \<le> lastIndexOf s p" using lastIndexOf_occurs [of s p] a by blast
  then show "lastIndexOf s p = - 1" using lastIndexOf_lower [of s p] by linarith
qed


section \<open>Facts about the cut point\<close>




lemma sentenceEnd_mark: "0 \<le> sentenceEnd u \<Longrightarrow> sentence_mark_at u (nat (sentenceEnd u))"
proof -
  assume nn: "0 \<le> sentenceEnd u"
  have "sentenceEnd u = lastIndexOf u [DOT, SP] \<or> sentenceEnd u = lastIndexOf u [DOT, LF] \<or>
      sentenceEnd u = lastIndexOf u [QMARK, SP] \<or> sentenceEnd u = lastIndexOf u [BANG, SP]"
    unfolding sentenceEnd_def by (auto simp: max_def)
  then show ?thesis
    unfolding sentence_mark_at_def
    using nn lastIndexOf_occurs [of u "[DOT, SP]"] lastIndexOf_occurs [of u "[DOT, LF]"]
      lastIndexOf_occurs [of u "[QMARK, SP]"] lastIndexOf_occurs [of u "[BANG, SP]"]
    by metis
qed


lemma sentence_mark_bound: "sentence_mark_at u i \<Longrightarrow> i + 2 \<le> length u"
  by (auto simp: sentence_mark_at_def occurs_at_def)



lemma past_30_positive: "past_30_percent i u \<Longrightarrow> 0 < i"
  by (simp add: past_30_percent_def)


text \<open>The four cases of the cut point.\<close>

lemma flushEnd_para:
  "hasParagraphBreak u \<Longrightarrow> 0 < lastIndexOf u [LF, LF] \<Longrightarrow> flushEnd u = lastIndexOf u [LF, LF]"
  by (simp add: flushEnd_def Let_def)

lemma flushEnd_para_0:
  "hasParagraphBreak u \<Longrightarrow> \<not> 0 < lastIndexOf u [LF, LF] \<Longrightarrow> flushEnd u = int (length u)"
  by (simp add: flushEnd_def Let_def)

lemma flushEnd_sentence:
  "\<not> hasParagraphBreak u \<Longrightarrow> past_30_percent (sentenceEnd u) u \<Longrightarrow>
     flushEnd u = sentenceEnd u + 1"
  by (simp add: flushEnd_def Let_def)

lemma flushEnd_space:
  "\<not> hasParagraphBreak u \<Longrightarrow> \<not> past_30_percent (sentenceEnd u) u \<Longrightarrow>
     past_30_percent (lastIndexOf u [SP]) u \<Longrightarrow> flushEnd u = lastIndexOf u [SP]"
  by (simp add: flushEnd_def Let_def)

lemma flushEnd_hard:
  "\<not> hasParagraphBreak u \<Longrightarrow> \<not> past_30_percent (sentenceEnd u) u \<Longrightarrow>
     \<not> past_30_percent (lastIndexOf u [SP]) u \<Longrightarrow> flushEnd u = int (length u)"
  by (simp add: flushEnd_def Let_def)

lemma flushEnd_range: "0 \<le> flushEnd u \<and> flushEnd u \<le> int (length u)"
proof (cases "hasParagraphBreak u")
  case True
  show ?thesis
  proof (cases "0 < lastIndexOf u [LF, LF]")
    case True
    then show ?thesis
      using flushEnd_para [OF \<open>hasParagraphBreak u\<close> True] lastIndexOf_bound [of u "[LF, LF]"]
      by simp
  next
    case False
    then show ?thesis using flushEnd_para_0 [OF True False] by simp
  qed
next
  case np: False
  show ?thesis
  proof (cases "past_30_percent (sentenceEnd u) u")
    case True
    then have pos: "0 < sentenceEnd u" by (rule past_30_positive)
    then have "sentence_mark_at u (nat (sentenceEnd u))" using sentenceEnd_mark [of u] by simp
    then have "nat (sentenceEnd u) + 2 \<le> length u" by (rule sentence_mark_bound)
    then show ?thesis using flushEnd_sentence [OF np True] pos by linarith
  next
    case ns: False
    show ?thesis
    proof (cases "past_30_percent (lastIndexOf u [SP]) u")
      case True
      then have pos: "0 < lastIndexOf u [SP]" by (rule past_30_positive)
      then show ?thesis
        using flushEnd_space [OF np ns True] lastIndexOf_bound [of u "[SP]"] by simp
    next
      case False
      then show ?thesis using flushEnd_hard [OF np ns False] by simp
    qed
  qed
qed


text \<open>\<open>slice\<close> with indices inside the string.\<close>

lemma slice_from_drop:
  "0 \<le> b \<Longrightarrow> b \<le> int (length s) \<Longrightarrow> slice_from s b = drop (nat b) s"
  by (simp add: slice_from_def slice_index_def)

lemma slice_take:
  "0 \<le> e \<Longrightarrow> e \<le> int (length s) \<Longrightarrow> slice s 0 e = take (nat e) s"
  by (simp add: slice_def slice_index_def)

lemma length_slice_from:
  "0 \<le> b \<Longrightarrow> b \<le> int (length s) \<Longrightarrow> int (length (slice_from s b)) = int (length s) - b"
  by (simp add: slice_from_drop)



section \<open>Facts about the Telegram loop\<close>

lemma chunks_of_turn_append:
  "chunks_of_turn n (xs @ ys) = chunks_of_turn n xs @ chunks_of_turn n ys"
  by (induction n xs rule: chunks_of_turn.induct) simp_all

lemma chain_append:
  "chain p (xs @ ys) = (case chain p xs of None \<Rightarrow> None | Some q \<Rightarrow> chain q ys)"
  by (induction p xs rule: chain.induct) simp_all

lemma segment_offsets: "offsets_ok s \<Longrightarrow> offsets_ok (segment text s)"
  by (auto simp: offsets_ok_def segment_def)

lemma segment_chunks: "chunks_ok s \<Longrightarrow> chunks_ok (segment text s)"
proof (cases "length text < length (currentTurnText s) \<and> currentTurnText s \<noteq> []")
  case True
  assume ok: "chunks_ok s"
  have new: "segment text s = s\<lparr> allResponses := allResponses s @ [currentTurnText s],
      currentTurnText := text, currentTurnSent := 0, turn := Suc (turn s) \<rparr>"
    using True by (simp add: segment_def)
  have "\<forall>n. n < Suc (turn s) \<longrightarrow> chain 0 (chunks_of_turn n (emitted s)) \<noteq> None"
  proof (intro allI impI)
    fix n assume "n < Suc (turn s)"
    then have "n < turn s \<or> n = turn s" by linarith
    then show "chain 0 (chunks_of_turn n (emitted s)) \<noteq> None"
      using ok by (auto simp: chunks_ok_def)
  qed
  then show ?thesis using ok unfolding new by (simp add: chunks_ok_def)
next
  case False
  assume ok: "chunks_ok s"
  have same: "segment text s = s\<lparr> currentTurnText := text \<rparr>"
    using False by (auto simp: segment_def)
  show ?thesis using ok unfolding same by (simp add: chunks_ok_def)
qed

lemma flush_cases:
  "flush now s = s \<or>
   flush now s = s\<lparr> emitted := emitted s @
       [Chunk (turn s) (currentTurnSent s)
          (currentTurnSent s + flushEnd (slice_from (currentTurnText s) (currentTurnSent s)))
          (trim (slice (slice_from (currentTurnText s) (currentTurnSent s)) 0
             (flushEnd (slice_from (currentTurnText s) (currentTurnSent s)))))],
     currentTurnSent :=
       currentTurnSent s + flushEnd (slice_from (currentTurnText s) (currentTurnSent s)),
     lastFlush := now \<rparr>"
  by (simp add: flush_def Let_def)

lemma flush_offsets:
  assumes "offsets_ok s"
  shows "offsets_ok (flush now s)"
proof -
  let ?u = "slice_from (currentTurnText s) (currentTurnSent s)"
  have "int (length ?u) = int (length (currentTurnText s)) - currentTurnSent s"
    using assms by (simp add: offsets_ok_def length_slice_from)
  then have "0 \<le> flushEnd ?u \<and>
      currentTurnSent s + flushEnd ?u \<le> int (length (currentTurnText s))"
    using flushEnd_range [of ?u] by linarith
  then show ?thesis using assms flush_cases [of now s] by (auto simp: offsets_ok_def)
qed

lemma flush_chunks:
  assumes "chunks_ok s"
  shows "chunks_ok (flush now s)"
proof -
  let ?u = "slice_from (currentTurnText s) (currentTurnSent s)"
  have nn: "0 \<le> flushEnd ?u" using flushEnd_range by blast
  from flush_cases [of now s] show ?thesis
  proof
    assume "flush now s = s"
    then show ?thesis using assms by simp
  next
    assume e: "flush now s = s\<lparr> emitted := emitted s @
       [Chunk (turn s) (currentTurnSent s) (currentTurnSent s + flushEnd ?u)
          (trim (slice ?u 0 (flushEnd ?u)))],
     currentTurnSent := currentTurnSent s + flushEnd ?u, lastFlush := now \<rparr>"
    show ?thesis
      unfolding e using assms nn
      by (simp add: chunks_ok_def chunks_of_turn_append chain_append)
  qed
qed

lemma flush_keeps [simp]:
  "currentTurnText (flush now s) = currentTurnText s"
  "allResponses (flush now s) = allResponses s"
  "turn (flush now s) = turn s"
  using flush_cases [of now s] by auto

lemma flush_advances: "currentTurnSent s \<le> currentTurnSent (flush now s)"
  using flush_cases [of now s]
    flushEnd_range [of "slice_from (currentTurnText s) (currentTurnSent s)"] by auto

lemma on_system_keeps [simp]:
  "currentTurnText (on_system a b c s) = currentTurnText s"
  "currentTurnSent (on_system a b c s) = currentTurnSent s"
  "turn (on_system a b c s) = turn s"
  "chunks_of_turn n (emitted (on_system a b c s)) = chunks_of_turn n (emitted s)"
  by (simp_all add: on_system_def Let_def chunks_of_turn_append)

lemma on_tool_use_keeps [simp]:
  "currentTurnText (on_tool_use s) = currentTurnText s"
  "currentTurnSent (on_tool_use s) = currentTurnSent s"
  "turn (on_tool_use s) = turn s"
  "emitted (on_tool_use s) = emitted s"
  by (simp_all add: on_tool_use_def)

lemma on_result_keeps [simp]:
  "currentTurnText (on_result r s) = currentTurnText s"
  "currentTurnSent (on_result r s) = currentTurnSent s"
  "turn (on_result r s) = turn s"
  by (simp_all add: on_result_def Let_def)

lemma on_result_chunks:
  "chunks_of_turn n (emitted (on_result r s)) = chunks_of_turn n (emitted s) \<or>
   chunks_of_turn n (emitted (on_result r s))
     = chunks_of_turn n (emitted s) @
       (if n = turn s then [(currentTurnSent s, int (length (currentTurnText s)))] else [])"
  by (simp add: on_result_def Let_def chunks_of_turn_append split: option.splits)

lemma tracker_update_ok [simp]:
  "offsets_ok (s\<lparr> tracker := t \<rparr>) = offsets_ok s"
  "chunks_ok (s\<lparr> tracker := t \<rparr>) = chunks_ok s"
  by (simp_all add: offsets_ok_def chunks_ok_def)

lemma on_assistant_offsets: "offsets_ok s \<Longrightarrow> offsets_ok (on_assistant now bs k s)"
  by (simp add: on_assistant_def Let_def flush_offsets segment_offsets)

lemma on_assistant_chunks: "chunks_ok s \<Longrightarrow> chunks_ok (on_assistant now bs k s)"
  by (simp add: on_assistant_def Let_def flush_chunks segment_chunks)

lemma step_offsets: "offsets_ok s \<Longrightarrow> offsets_ok (stream_step s m)"
proof -
  assume ok: "offsets_ok s"
  obtain now msg where m: "m = (now, msg)" by (cases m)
  show ?thesis
  proof (cases msg)
    case (AssistantMsg bs k u)
    then show ?thesis using ok m by (simp add: on_assistant_offsets)
  qed (use ok m in \<open>simp_all add: offsets_ok_def\<close>)
qed

lemma step_chunks: "chunks_ok s \<Longrightarrow> \<not> is_result m \<Longrightarrow> chunks_ok (stream_step s m)"
proof -
  assume ok: "chunks_ok s" and nr: "\<not> is_result m"
  obtain now msg where m: "m = (now, msg)" by (cases m)
  show ?thesis
  proof (cases msg)
    case (AssistantMsg bs k u)
    then show ?thesis using ok m by (simp add: on_assistant_chunks)
  next
    case (ResultMsg r)
    then show ?thesis using nr m by simp
  qed (use ok m in \<open>simp_all add: chunks_ok_def\<close>)
qed

lemma run_snoc: "stream_run s (ms @ [m]) = stream_step (stream_run s ms) m"
  by (simp add: stream_run_def)

lemma run_offsets: "offsets_ok s \<Longrightarrow> offsets_ok (stream_run s ms)"
  by (induction ms rule: rev_induct) (simp_all add: run_snoc step_offsets, simp add: stream_run_def)

lemma run_chunks:
  "chunks_ok s \<Longrightarrow> \<not> list_ex is_result ms \<Longrightarrow> chunks_ok (stream_run s ms)"
proof (induction ms rule: rev_induct)
  case Nil
  then show ?case by (simp add: stream_run_def)
next
  case (snoc m ms)
  then show ?case by (simp add: run_snoc step_chunks)
qed

lemma start_run_ok: "offsets_ok (start_run t0 sid tr n) \<and> chunks_ok (start_run t0 sid tr n)"
  by (simp add: offsets_ok_def chunks_ok_def start_run_def)

lemma result_in_order:
  assumes "offsets_ok s" and "chunks_ok s"
  shows "in_order (emitted (on_result r s))"
  unfolding in_order_def
proof
  fix n
  have cur: "chain 0 (chunks_of_turn (turn s) (emitted s)) = Some (currentTurnSent s)"
    using assms(2) by (simp add: chunks_ok_def)
  have old: "chain 0 (chunks_of_turn n (emitted s)) \<noteq> None"
  proof (cases "n < turn s")
    case True
    then show ?thesis using assms(2) by (simp add: chunks_ok_def)
  next
    case False
    then have "n = turn s \<or> turn s < n" by linarith
    then show ?thesis using assms(2) cur by (auto simp: chunks_ok_def)
  qed
  from on_result_chunks [of n r s]
  show "chain 0 (chunks_of_turn n (emitted (on_result r s))) \<noteq> None"
  proof
    assume "chunks_of_turn n (emitted (on_result r s)) = chunks_of_turn n (emitted s)"
    then show ?thesis using old by simp
  next
    assume e: "chunks_of_turn n (emitted (on_result r s))
      = chunks_of_turn n (emitted s) @
        (if n = turn s then [(currentTurnSent s, int (length (currentTurnText s)))] else [])"
    show ?thesis
    proof (cases "n = turn s")
      case True
      then show ?thesis
        unfolding e using cur assms(1) by (simp add: chain_append offsets_ok_def)
    next
      case False
      then show ?thesis unfolding e using old by simp
    qed
  qed
qed

section \<open>Facts about the approval gate\<close>

lemma distinct_fst_filter: "distinct (map fst xs) \<Longrightarrow> distinct (map fst (filter P xs))"
  by (induction xs) auto

lemma same_promise_same_timer:
  "distinct (map fst xs) \<Longrightarrow> (p, a) \<in> set xs \<Longrightarrow> (p, b) \<in> set xs \<Longrightarrow> a = b"
  by (induction xs) (auto simp: image_iff)

lemma gate_inv_new: "gate_inv new_gate \<and> time_inv new_gate"
  by (simp add: gate_inv_def time_inv_def new_gate_def)

lemma gate_inv_request:
  assumes "gate_inv s"
  shows "gate_inv (requestTelegramApproval ident has_ctx s)"
proof (cases has_ctx)
  case False
  have "\<forall>p < Suc (requests s). p \<noteq> requests s \<longrightarrow> p \<notin> fst ` set (resolutions s) \<longrightarrow>
      p \<in> fst ` set (timers s)"
    using assms by (simp add: gate_inv_def less_Suc_eq)
  then show ?thesis
    using assms False unfolding gate_inv_def requestTelegramApproval_def
    by (auto simp: less_Suc_eq image_iff)
next
  case True
  have fresh: "requests s \<notin> fst ` set (timers s)" "requests s \<notin> fst ` set (resolutions s)"
    using assms unfolding gate_inv_def by (auto simp: image_iff)
  show ?thesis
    using assms True fresh unfolding gate_inv_def requestTelegramApproval_def
    by (auto simp: less_Suc_eq image_iff)
qed

lemma gate_inv_removed:
  assumes inv: "gate_inv s" and t: "(p, d, ident) \<in> set (timers s)"
  shows "gate_inv (s\<lparr> timers := filter (\<lambda>x. fst x \<noteq> p) (timers s),
     pendingApprovals := (pendingApprovals s)(ident := None),
     resolutions := resolutions s @ [(p, r)] \<rparr>)"
proof -
  have dist: "distinct (map fst (timers s))" using inv by (simp add: gate_inv_def)
  have a: "\<forall>i q. i \<noteq> ident \<longrightarrow> pendingApprovals s i = Some q \<longrightarrow>
      (\<exists>e. (q, e, i) \<in> set (filter (\<lambda>x. fst x \<noteq> p) (timers s)))"
  proof (intro allI impI)
    fix i q assume ne: "i \<noteq> ident" and e: "pendingApprovals s i = Some q"
    then obtain e' where q: "(q, e', i) \<in> set (timers s)"
      using inv unfolding gate_inv_def by blast
    have "q \<noteq> p"
    proof
      assume "q = p"
      then have "(e', i) = (d, ident)" using same_promise_same_timer [OF dist] q t by blast
      then show False using ne by simp
    qed
    then show "\<exists>e. (q, e, i) \<in> set (filter (\<lambda>x. fst x \<noteq> p) (timers s))"
      using q by auto
  qed
  have "\<forall>t \<in> set (timers s). fst t < requests s \<and> fst t \<notin> fst ` set (resolutions s)"
    using inv by (simp add: gate_inv_def)
  then have "fst (p, d, ident) < requests s \<and> fst (p, d, ident) \<notin> fst ` set (resolutions s)"
    using t by blast
  then have b: "p < requests s" "p \<notin> fst ` set (resolutions s)"
    by simp_all
  have c: "\<forall>q < requests s. q \<noteq> p \<longrightarrow> q \<notin> fst ` set (resolutions s) \<longrightarrow>
      q \<in> fst ` set (filter (\<lambda>x. fst x \<noteq> p) (timers s))"
  proof (intro allI impI)
    fix q assume "q < requests s" and ne: "q \<noteq> p" and "q \<notin> fst ` set (resolutions s)"
    then have "q \<in> fst ` set (timers s)" using inv unfolding gate_inv_def by blast
    then obtain x where "x \<in> set (timers s)" and "fst x = q" by auto
    then have "x \<in> set (filter (\<lambda>x. fst x \<noteq> p) (timers s))" using ne by simp
    then show "q \<in> fst ` set (filter (\<lambda>x. fst x \<noteq> p) (timers s))"
      using \<open>fst x = q\<close> by (metis image_eqI)
  qed
  have d: "\<forall>t \<in> set (timers s). fst t < requests s \<and> fst t \<notin> fst ` set (resolutions s)"
    using inv by (simp add: gate_inv_def)
  have e: "distinct (map fst (resolutions s))" "\<forall>r \<in> set (resolutions s). fst r < requests s"
    using inv by (simp_all add: gate_inv_def)
  let ?s = "s\<lparr> timers := filter (\<lambda>x. fst x \<noteq> p) (timers s),
     pendingApprovals := (pendingApprovals s)(ident := None),
     resolutions := resolutions s @ [(p, r)] \<rparr>"
  have 1: "\<forall>i q. pendingApprovals ?s i = Some q \<longrightarrow> (\<exists>e. (q, e, i) \<in> set (timers ?s))"
    using a by simp
  have 2: "distinct (map fst (timers ?s))"
    using distinct_fst_filter [OF dist] by simp
  have 3: "\<forall>t \<in> set (timers ?s). fst t < requests ?s \<and> fst t \<notin> fst ` set (resolutions ?s)"
    using d by simp
  have 4: "distinct (map fst (resolutions ?s))"
    using e(1) b(2) by simp
  have 5: "\<forall>x \<in> set (resolutions ?s). fst x < requests ?s"
    using e(2) b(1) by simp
  have 6: "\<forall>q < requests ?s. q \<notin> fst ` set (resolutions ?s) \<longrightarrow> q \<in> fst ` set (timers ?s)"
    using c by simp
  from 1 2 3 4 5 6 show ?thesis unfolding gate_inv_def by blast
qed

lemma gate_inv_callback:
  assumes "gate_inv s"
  shows "gate_inv (callback_query authorized d s)"
proof -
  have plain: "\<And>x. gate_inv (s\<lparr> answers := x \<rparr>)" using assms by (simp add: gate_inv_def)
  show ?thesis
  proof (cases "authorized")
    case False
    then show ?thesis using plain by (simp add: callback_query_def)
  next
    case True
    show ?thesis
    proof (cases "parse_callback d")
      case None
      then show ?thesis using plain True by (simp add: callback_query_def)
    next
      case (Some ai)
      obtain approve ident where ai: "ai = (approve, ident)" by (cases ai)
      show ?thesis
      proof (cases "pendingApprovals s ident")
        case None
        then show ?thesis using plain True Some ai by (simp add: callback_query_def)
      next
        case (Some p)
        then obtain dl where "(p, dl, ident) \<in> set (timers s)"
          using assms unfolding gate_inv_def by blast
        then have "gate_inv (s\<lparr> timers := filter (\<lambda>x. fst x \<noteq> p) (timers s),
            pendingApprovals := (pendingApprovals s)(ident := None),
            resolutions := resolutions s @ [(p, if approve then Approved else Rejected)] \<rparr>)"
          using gate_inv_removed [OF assms] by blast
        then have "gate_inv (s\<lparr> timers := filter (\<lambda>x. fst x \<noteq> p) (timers s),
            pendingApprovals := (pendingApprovals s)(ident := None),
            resolutions := resolutions s @ [(p, if approve then Approved else Rejected)],
            answers := answers s @ [Decided approve] \<rparr>)"
          by (simp add: gate_inv_def)
        then show ?thesis
          using True \<open>parse_callback d = Some ai\<close> ai Some by (simp add: callback_query_def)
      qed
    qed
  qed
qed

lemma gate_inv_fires:
  assumes "gate_inv s" and "t \<in> set (timers s)"
  shows "gate_inv (timeout_fires s t)"
proof -
  obtain p d ident where t: "t = (p, d, ident)" by (cases t)
  have "gate_inv (s\<lparr> timers := filter (\<lambda>x. fst x \<noteq> p) (timers s),
     pendingApprovals := (pendingApprovals s)(ident := None),
     resolutions := resolutions s @ [(p, TimedOut)] \<rparr>)"
    using gate_inv_removed [OF assms(1)] assms(2) t by blast
  then show ?thesis using t by (simp add: timeout_fires_def gate_inv_def)
qed

text \<open>Firing a list of armed timeouts of distinct promises, one after the other.\<close>

lemma fire_all:
  assumes "gate_inv s" and "set ts \<subseteq> set (timers s)" and "distinct (map fst ts)"
  shows "gate_inv (foldl timeout_fires s ts) \<and>
    timers (foldl timeout_fires s ts) = filter (\<lambda>x. fst x \<notin> fst ` set ts) (timers s) \<and>
    resolutions (foldl timeout_fires s ts) = resolutions s @ map (\<lambda>t. (fst t, TimedOut)) ts \<and>
    (\<forall>i. pendingApprovals (foldl timeout_fires s ts) i =
       (if i \<in> (\<lambda>t. snd (snd t)) ` set ts then None else pendingApprovals s i)) \<and>
    clock (foldl timeout_fires s ts) = clock s \<and>
    requests (foldl timeout_fires s ts) = requests s \<and>
    answers (foldl timeout_fires s ts) = answers s"
  using assms
proof (induction ts arbitrary: s)
  case Nil
  then show ?case by simp
next
  case (Cons t ts)
  let ?s = "timeout_fires s t"
  have inv: "gate_inv ?s" using Cons.prems by (simp add: gate_inv_fires)
  have tm: "timers ?s = filter (\<lambda>x. fst x \<noteq> fst t) (timers s)"
    by (simp add: timeout_fires_def)
  have sub: "set ts \<subseteq> set (timers ?s)"
    using Cons.prems(2,3) unfolding tm by (auto simp: image_iff)
  have dist: "distinct (map fst ts)" using Cons.prems(3) by simp
  have IH: "gate_inv (foldl timeout_fires ?s ts) \<and>
    timers (foldl timeout_fires ?s ts) = filter (\<lambda>x. fst x \<notin> fst ` set ts) (timers ?s) \<and>
    resolutions (foldl timeout_fires ?s ts)
      = resolutions ?s @ map (\<lambda>t. (fst t, TimedOut)) ts \<and>
    (\<forall>i. pendingApprovals (foldl timeout_fires ?s ts) i =
       (if i \<in> (\<lambda>t. snd (snd t)) ` set ts then None else pendingApprovals ?s i)) \<and>
    clock (foldl timeout_fires ?s ts) = clock ?s \<and>
    requests (foldl timeout_fires ?s ts) = requests ?s \<and>
    answers (foldl timeout_fires ?s ts) = answers ?s"
    using Cons.IH [OF inv sub dist] .
  have f: "filter (\<lambda>x. fst x \<notin> fst ` set ts) (filter (\<lambda>x. fst x \<noteq> fst t) (timers s))
      = filter (\<lambda>x. fst x \<notin> fst ` set (t # ts)) (timers s)"
    by (induction "timers s") auto
  have fields: "resolutions ?s = resolutions s @ [(fst t, TimedOut)]"
    "pendingApprovals ?s = (pendingApprovals s)(snd (snd t) := None)"
    "clock ?s = clock s" "requests ?s = requests s" "answers ?s = answers s"
    by (simp_all add: timeout_fires_def)
  show ?case
    using IH unfolding tm f fields by auto
qed

lemma gate_inv_clock: "gate_inv (s\<lparr> clock := c \<rparr>) = gate_inv s"
  by (simp add: gate_inv_def)

lemma due_not_left:
  "x \<in> set xs \<Longrightarrow> fst x \<notin> fst ` set (filter P xs) \<Longrightarrow> \<not> P x"
proof
  assume "x \<in> set xs" and "fst x \<notin> fst ` set (filter P xs)" and "P x"
  then have "x \<in> set (filter P xs)" by simp
  then have "fst x \<in> fst ` set (filter P xs)" by (rule imageI)
  then show False using \<open>fst x \<notin> fst ` set (filter P xs)\<close> by simp
qed

lemma tick_facts:
  assumes "gate_inv s"
  shows "gate_inv (tick now s) \<and>
    timers (tick now s)
      = filter (\<lambda>x. fst x \<notin> fst ` set (filter (\<lambda>t. fst (snd t) \<le> max (clock s) now) (timers s)))
          (timers s) \<and>
    resolutions (tick now s) = resolutions s @
      map (\<lambda>t. (fst t, TimedOut)) (filter (\<lambda>t. fst (snd t) \<le> max (clock s) now) (timers s)) \<and>
    clock (tick now s) = max (clock s) now \<and>
    requests (tick now s) = requests s \<and> answers (tick now s) = answers s"
proof -
  let ?s = "s\<lparr> clock := max (clock s) now \<rparr>"
  let ?ts = "filter (\<lambda>t. fst (snd t) \<le> max (clock s) now) (timers s)"
  have inv: "gate_inv ?s" using assms by (simp add: gate_inv_clock)
  have sub: "set ?ts \<subseteq> set (timers ?s)" by auto
  have "distinct (map fst (timers s))" using assms by (simp add: gate_inv_def)
  then have dist: "distinct (map fst ?ts)" by (rule distinct_fst_filter)
  from fire_all [OF inv sub dist] show ?thesis by (simp add: tick_def)
qed

lemma time_inv_tick:
  assumes "gate_inv s" and "time_inv s"
  shows "time_inv (tick now s)"
  unfolding time_inv_def
proof
  fix x assume "x \<in> set (timers (tick now s))"
  then have x: "x \<in> set (timers s)"
    and left: "fst x \<notin> fst ` set (filter (\<lambda>t. fst (snd t) \<le> max (clock s) now) (timers s))"
    using tick_facts [OF assms(1), of now] by simp_all
  have "\<not> fst (snd x) \<le> max (clock s) now" using due_not_left [OF x left] .
  moreover have "fst (snd x) \<le> clock s + APPROVAL_TIMEOUT"
    using assms(2) x by (simp add: time_inv_def)
  moreover have "clock (tick now s) = max (clock s) now"
    using tick_facts [OF assms(1), of now] by simp
  ultimately show "clock (tick now s) < fst (snd x) \<and>
      fst (snd x) \<le> clock (tick now s) + APPROVAL_TIMEOUT"
    by linarith
qed

lemma time_inv_request: "time_inv s \<Longrightarrow> time_inv (requestTelegramApproval ident has_ctx s)"
  by (auto simp: time_inv_def requestTelegramApproval_def APPROVAL_TIMEOUT_def)

lemma time_inv_callback: "time_inv s \<Longrightarrow> time_inv (callback_query authorized d s)"
  by (auto simp: time_inv_def callback_query_def split: option.splits)

lemma gate_step_inv:
  "gate_inv s \<and> time_inv s \<Longrightarrow> gate_inv (gate_step s e) \<and> time_inv (gate_step s e)"
proof (cases e)
  case (Request ident has_ctx)
  assume "gate_inv s \<and> time_inv s"
  then show ?thesis using Request by (simp add: gate_inv_request time_inv_request)
next
  case (Callback authorized d)
  assume "gate_inv s \<and> time_inv s"
  then show ?thesis using Callback by (simp add: gate_inv_callback time_inv_callback)
next
  case (Tick now)
  assume "gate_inv s \<and> time_inv s"
  then show ?thesis using Tick tick_facts [of s now] by (simp add: time_inv_tick)
qed

lemma gate_run_snoc: "gate_run (es @ [e]) = gate_step (gate_run es) e"
  by (simp add: gate_run_def)

lemma gate_run_inv: "gate_inv (gate_run es) \<and> time_inv (gate_run es)"
proof (induction es rule: rev_induct)
  case Nil
  then show ?case using gate_inv_new by (simp add: gate_run_def)
next
  case (snoc e es)
  then show ?case using gate_step_inv [of "gate_run es" e] by (simp add: gate_run_snoc)
qed

lemma at_most_once: "distinct (map fst rs) \<Longrightarrow> length (filter (\<lambda>r. fst r = p) rs) \<le> 1"
proof (induction rs)
  case Nil
  then show ?case by simp
next
  case (Cons r rs)
  show ?case
  proof (cases "fst r = p")
    case True
    then have "p \<notin> fst ` set rs" using Cons.prems by auto
    then have "filter (\<lambda>r. fst r = p) rs = []" by (auto simp: filter_empty_conv)
    then show ?thesis using True by simp
  next
    case False
    then show ?thesis using Cons by simp
  qed
qed

lemma at_least_once: "p \<in> fst ` set rs \<Longrightarrow> 1 \<le> length (filter (\<lambda>r. fst r = p) rs)"
  by (induction rs) auto

lemma never_resolved: "(length (filter (\<lambda>r. fst r = p) rs) = 0) = (p \<notin> fst ` set rs)"
  by (induction rs) auto

lemma terminal_answered: "foldl terminal_step (Answered b) es = Answered b"
  by (induction es) simp_all

lemma terminal_first_line:
  "requestTerminalApproval es
     = (case first_line es of None \<Rightarrow> Waiting | Some a \<Rightarrow> Answered (says_yes a))"
  unfolding requestTerminalApproval_def
  by (induction es rule: first_line.induct) (simp_all add: terminal_answered)

section \<open>Facts about parseLine and the sync loop\<close>

lemma parseLine_cases:
  "parseLine env line = Inr None \<or> (\<exists>m. parseLine env line = Inr (Some m))"
  by (cases "parseLine_try env line") (auto simp: parseLine_def)

lemma parseLine_caught: "parseLine_try env line = Inl e \<Longrightarrow> parseLine env line = Inr None"
  by (simp add: parseLine_def)

lemma sync_loop_skip:
  "parseLine env line = Inr None \<Longrightarrow> sync_loop env s (pre @ line # post) = sync_loop env s (pre @ post)"
proof (induction pre arbitrary: s)
  case Nil
  then show ?case by simp
next
  case (Cons l pre)
  from parseLine_cases [of env l] show ?case
  proof
    assume "parseLine env l = Inr None"
    then show ?thesis using Cons by simp
  next
    assume "\<exists>m. parseLine env l = Inr (Some m)"
    then show ?thesis using Cons by auto
  qed
qed

lemma sync_loop_decoded:
  "sync_loop env s lines = Inr (foldl (sync_message env) s (decoded env lines))"
proof (induction lines arbitrary: s)
  case Nil
  then show ?case by simp
next
  case (Cons l lines)
  from parseLine_cases [of env l] show ?case
  proof
    assume "parseLine env l = Inr None"
    then show ?thesis using Cons by simp
  next
    assume "\<exists>m. parseLine env l = Inr (Some m)"
    then show ?thesis using Cons by auto
  qed
qed

lemma decoded_append: "decoded env (xs @ ys) = decoded env xs @ decoded env ys"
proof (induction xs)
  case Nil
  then show ?case by simp
next
  case (Cons l xs)
  from parseLine_cases [of env l] show ?case
  proof
    assume "parseLine env l = Inr None"
    then show ?thesis using Cons by simp
  next
    assume "\<exists>m. parseLine env l = Inr (Some m)"
    then show ?thesis using Cons by auto
  qed
qed

lemma parse_value_other_type:
  assumes "get_property d (ascii ''type'') = Inr ty"
    and "ty \<noteq> Str (ascii ''user'')" and "ty \<noteq> Str (ascii ''assistant'')"
  shows "parse_value env d = Inr None \<or> (\<exists>e. parse_value env d = Inl e)"
  using assms unfolding parse_value_def
  by (auto simp: Let_def split: sum.splits jsval.splits)

section \<open>The claims\<close>

text \<open>
  C4.  Between two resets, whatever sequence of \<open>addTokens\<close>, \<open>setTokens\<close> and
  \<open>checkWarnings\<close> calls is made and whatever state it starts in, \<open>checkWarnings\<close> returns
  the 5 percent warning at most once and the 10 percent warning at most once.  Scenario E:
  starting with both flags clear and remaining in (5, 10], a check returns the 10 percent
  warning and the next check returns null; after tokens are added so that remaining is at
  most 5, a check returns the 5 percent warning and the next check returns null: two
  warnings in total.
\<close>

theorem checkWarnings_one_shot:
  "(Reset \<notin> set xs \<longrightarrow>
      length (filter is_imminent (tracker_returns t xs)) \<le> 1 \<and>
      length (filter is_approaching (tracker_returns t xs)) \<le> 1) \<and>
   (\<not> pct10 t \<and> \<not> pct5 t \<and> 5 < remainingPct t \<and> remainingPct t \<le> 10 \<and>
    remainingPct (addTokens n t) \<le> 5 \<longrightarrow>
      tracker_returns t [CheckWarnings, CheckWarnings, AddTokens n, CheckWarnings, CheckWarnings]
        = [Some (Approaching (usedPct t) (remainingPct t)), None, None,
           Some (Imminent (usedPct (addTokens n t)) (remainingPct (addTokens n t))), None])"
proof (intro conjI impI)
  assume "Reset \<notin> set xs"
  then show "length (filter is_imminent (tracker_returns t xs)) \<le> 1"
    by (rule imminent_at_most_once)
next
  assume "Reset \<notin> set xs"
  then show "length (filter is_approaching (tracker_returns t xs)) \<le> 1"
    by (rule approaching_at_most_once)
next
  assume a: "\<not> pct10 t \<and> \<not> pct5 t \<and> 5 < remainingPct t \<and> remainingPct t \<le> 10 \<and>
    remainingPct (addTokens n t) \<le> 5"
  then show "tracker_returns t [CheckWarnings, CheckWarnings, AddTokens n, CheckWarnings, CheckWarnings]
        = [Some (Approaching (usedPct t) (remainingPct t)), None, None,
           Some (Imminent (usedPct (addTokens n t)) (remainingPct (addTokens n t))), None]"
    by (simp add: checkWarnings_def Let_def)
qed

theorem checkWarnings_one_shot_witness:
  "Reset \<notin> set [CheckWarnings, CheckWarnings, AddTokens 10000, CheckWarnings, CheckWarnings] \<and>
   length (filter is_imminent (tracker_returns (setTokens 182000 new_tracker)
     [CheckWarnings, CheckWarnings, AddTokens 10000, CheckWarnings, CheckWarnings])) \<le> 1 \<and>
   length (filter is_approaching (tracker_returns (setTokens 182000 new_tracker)
     [CheckWarnings, CheckWarnings, AddTokens 10000, CheckWarnings, CheckWarnings])) \<le> 1 \<and>
   remainingPct (setTokens 182000 new_tracker) = 9 \<and>
   remainingPct (addTokens 10000 (setTokens 182000 new_tracker)) = 4 \<and>
   tracker_returns (setTokens 182000 new_tracker)
     [CheckWarnings, CheckWarnings, AddTokens 10000, CheckWarnings, CheckWarnings]
     = [Some (Approaching 91 9), None, None, Some (Imminent 96 4), None]"
  using checkWarnings_one_shot [of "[CheckWarnings, CheckWarnings, AddTokens 10000, CheckWarnings, CheckWarnings]"
      "setTokens 182000 new_tracker" 10000]
  by (simp add: remainingPct_def usedPct_def round_pct_def setTokens_def addTokens_def
      new_tracker_def)




text \<open>
  C10.  With both flags clear and at most 5 percent remaining, \<open>checkWarnings()\<close> returns
  the 5 percent warning alone and sets only \<open>pct5\<close>.  After any further \<open>addTokens\<close> and
  \<open>setTokens\<close> calls, the next \<open>checkWarnings()\<close> with at most 10 percent remaining returns
  the 10 percent warning and sets \<open>pct10\<close>.  No call returns both.
\<close>

theorem checkWarnings_five_before_ten:
  assumes "\<not> pct5 t" and "\<not> pct10 t" and "remainingPct t \<le> 5"
    and "\<forall>x\<in>set xs. x \<noteq> Reset \<and> x \<noteq> CheckWarnings"
    and "t' = tracker_run (snd (checkWarnings t)) xs"
    and "remainingPct t' \<le> 10"
  shows "checkWarnings t = (Some (Imminent (usedPct t) (remainingPct t)), t\<lparr> pct5 := True \<rparr>) \<and>
    checkWarnings t' = (Some (Approaching (usedPct t') (remainingPct t')), t'\<lparr> pct10 := True \<rparr>) \<and>
    \<not> (is_imminent (fst (checkWarnings s)) \<and> is_approaching (fst (checkWarnings s)))"
proof -
  have first: "checkWarnings t = (Some (Imminent (usedPct t) (remainingPct t)), t\<lparr> pct5 := True \<rparr>)"
    using assms(1,3) by (simp add: checkWarnings_def Let_def)
  have "pct5 t' = pct5 (snd (checkWarnings t)) \<and> pct10 t' = pct10 (snd (checkWarnings t))"
    unfolding assms(5) using assms(4) by (rule token_updates_keep_flags)
  then have flags: "pct5 t'" "\<not> pct10 t'"
    using first assms(2) by simp_all
  have second: "checkWarnings t' = (Some (Approaching (usedPct t') (remainingPct t')), t'\<lparr> pct10 := True \<rparr>)"
    using flags assms(6) by (simp add: checkWarnings_def Let_def)
  have "\<not> (is_imminent (fst (checkWarnings s)) \<and> is_approaching (fst (checkWarnings s)))"
    by (cases "fst (checkWarnings s)") (auto elim: is_imminent.elims is_approaching.elims)
  with first second show ?thesis by simp
qed

theorem checkWarnings_five_before_ten_witness:
  "remainingPct (setTokens 191000 new_tracker) = 4 \<and>
   checkWarnings (setTokens 191000 new_tracker)
     = (Some (Imminent 96 4), (setTokens 191000 new_tracker)\<lparr> pct5 := True \<rparr>) \<and>
   checkWarnings (tracker_run (snd (checkWarnings (setTokens 191000 new_tracker))) [AddTokens 500])
     = (Some (Approaching 96 4),
        \<lparr> tokens = 191500, pct10 = True, pct5 = True, lastCompactionNotified = False \<rparr>)"
proof -
  let ?t = "setTokens 191000 new_tracker"
  have r: "remainingPct ?t = 4"
    by (simp add: remainingPct_def usedPct_def round_pct_def setTokens_def new_tracker_def)
  have c: "checkWarnings ?t = (Some (Imminent 96 4), ?t\<lparr> pct5 := True \<rparr>)"
    by (simp add: checkWarnings_def Let_def remainingPct_def usedPct_def round_pct_def
        setTokens_def new_tracker_def)
  have t': "tracker_run (snd (checkWarnings ?t)) [AddTokens 500]
      = \<lparr> tokens = 191500, pct10 = False, pct5 = True, lastCompactionNotified = False \<rparr>"
    unfolding c by (simp add: addTokens_def setTokens_def new_tracker_def)
  have r': "remainingPct (tracker_run (snd (checkWarnings ?t)) [AddTokens 500]) \<le> 10"
    unfolding t' by (simp add: remainingPct_def usedPct_def round_pct_def)
  have u': "usedPct \<lparr> tokens = 191500, pct10 = False, pct5 = True, lastCompactionNotified = False \<rparr> = 96"
    by (simp add: usedPct_def round_pct_def)
  show ?thesis
    using checkWarnings_five_before_ten [of ?t "[AddTokens 500]"
        "tracker_run (snd (checkWarnings ?t)) [AddTokens 500]" "?t"] r r' c
    unfolding t' by (simp add: u' remainingPct_def setTokens_def new_tracker_def)
qed









text \<open>
  C6.  After every message of every run, \<open>0 \<le> currentTurnSent \<le> length currentTurnText\<close>.
  A message that does not start a new turn never lowers \<open>currentTurnSent\<close>.  Up to the
  result message, the chunks sent for the current turn follow one another: the first
  starts at offset 0, each next one starts where the one before it ended, and the last
  one ends at \<open>currentTurnSent\<close>; the same holds for the chunks of every earlier turn.  It
  still holds when the result message sends the rest of the text, from \<open>currentTurnSent\<close>
  to the end.
\<close>

theorem sentOffset_invariant:
  "(0 \<le> currentTurnSent (stream_run (start_run t0 sid tr n) ms) \<and>
    currentTurnSent (stream_run (start_run t0 sid tr n) ms)
      \<le> int (length (currentTurnText (stream_run (start_run t0 sid tr n) ms)))) \<and>
   (turn (stream_step s m) = turn s \<longrightarrow> currentTurnSent s \<le> currentTurnSent (stream_step s m)) \<and>
   (\<not> list_ex is_result ms \<longrightarrow>
      chain 0 (chunks_of_turn (turn (stream_run (start_run t0 sid tr n) ms))
                (emitted (stream_run (start_run t0 sid tr n) ms)))
        = Some (currentTurnSent (stream_run (start_run t0 sid tr n) ms)) \<and>
      in_order (emitted (stream_run (start_run t0 sid tr n) ms)) \<and>
      in_order (emitted (stream_run (start_run t0 sid tr n) (ms @ [(now, ResultMsg r)]))))"
proof (intro conjI impI)
  let ?s = "stream_run (start_run t0 sid tr n) ms"
  have off: "offsets_ok ?s" using start_run_ok run_offsets by blast
  then show "0 \<le> currentTurnSent ?s" by (simp add: offsets_ok_def)
  from off show "currentTurnSent ?s \<le> int (length (currentTurnText ?s))"
    by (simp add: offsets_ok_def)
  {
    assume nr: "\<not> list_ex is_result ms"
    have ch: "chunks_ok ?s" using start_run_ok run_chunks nr by blast
    then show "chain 0 (chunks_of_turn (turn ?s) (emitted ?s)) = Some (currentTurnSent ?s)"
      by (simp add: chunks_ok_def)
    show "in_order (emitted ?s)"
      unfolding in_order_def
    proof
      fix k
      have "k < turn ?s \<or> k = turn ?s \<or> turn ?s < k" by linarith
      then show "chain 0 (chunks_of_turn k (emitted ?s)) \<noteq> None"
        using ch by (auto simp: chunks_ok_def)
    qed
    show "in_order (emitted (stream_run (start_run t0 sid tr n) (ms @ [(now, ResultMsg r)])))"
      using result_in_order [OF off ch] by (simp add: run_snoc)
  }
next
  assume same: "turn (stream_step s m) = turn s"
  obtain t msg where m: "m = (t, msg)" by (cases m)
  show "currentTurnSent s \<le> currentTurnSent (stream_step s m)"
  proof (cases msg)
    case (AssistantMsg bs k u)
    let ?s1 = "if k \<noteq> 0 then s\<lparr> tracker := setTokens k (tracker s) \<rparr> else s"
    show ?thesis
    proof (cases "message_text bs = []")
      case True
      then show ?thesis using m AssistantMsg by (simp add: on_assistant_def Let_def)
    next
      case False
      then have e: "stream_step s m = flush t (segment (message_text bs) ?s1)"
        using m AssistantMsg by (simp add: on_assistant_def Let_def)
      have "turn (segment (message_text bs) ?s1) = turn s" using same e by simp
      then have "currentTurnSent (segment (message_text bs) ?s1) = currentTurnSent s"
        by (auto simp: segment_def split: if_splits)
      then show ?thesis using flush_advances [of "segment (message_text bs) ?s1" t] e by simp
    qed
  qed (use m in simp_all)
qed

theorem sentOffset_invariant_witness:
  "\<not> list_ex is_result
      [(4000, AssistantMsg [TextBlock (ascii
          ''The quick brown fox jumps over the lazy dog and keeps runn'')] 0 []),
       (9000, AssistantMsg [TextBlock (ascii
          ''The quick brown fox jumps over the lazy dog and keeps running through the forest until the evening com'')] 0 [])] \<and>
   currentTurnSent (stream_run (start_run 0 [] new_tracker 2)
      [(4000, AssistantMsg [TextBlock (ascii
          ''The quick brown fox jumps over the lazy dog and keeps runn'')] 0 []),
       (9000, AssistantMsg [TextBlock (ascii
          ''The quick brown fox jumps over the lazy dog and keeps running through the forest until the evening com'')] 0 [])]) = 98 \<and>
   chunks_of_turn 0 (emitted (stream_run (start_run 0 [] new_tracker 2)
      ([(4000, AssistantMsg [TextBlock (ascii
          ''The quick brown fox jumps over the lazy dog and keeps runn'')] 0 []),
        (9000, AssistantMsg [TextBlock (ascii
          ''The quick brown fox jumps over the lazy dog and keeps running through the forest until the evening com'')] 0 [])]
       @ [(9500, ResultMsg [])])))
     = [(0, 53), (53, 98), (98, 102)] \<and>
   in_order (emitted (stream_run (start_run 0 [] new_tracker 2)
      ([(4000, AssistantMsg [TextBlock (ascii
          ''The quick brown fox jumps over the lazy dog and keeps runn'')] 0 []),
        (9000, AssistantMsg [TextBlock (ascii
          ''The quick brown fox jumps over the lazy dog and keeps running through the forest until the evening com'')] 0 [])]
       @ [(9500, ResultMsg [])])))"
proof -
  let ?m1 = "(4000 :: int, AssistantMsg [TextBlock (ascii
          ''The quick brown fox jumps over the lazy dog and keeps runn'')] 0 [])"
  let ?m2 = "(9000 :: int, AssistantMsg [TextBlock (ascii
          ''The quick brown fox jumps over the lazy dog and keeps running through the forest until the evening com'')] 0 [])"
  let ?s0 = "start_run 0 [] new_tracker 2"
  have nr: "\<not> list_ex is_result [?m1, ?m2]" by simp
  have s1: "stream_run ?s0 [?m1] = ?s0\<lparr> currentTurnText := ascii
          ''The quick brown fox jumps over the lazy dog and keeps runn'',
        currentTurnSent := 53, lastFlush := 4000,
        emitted := [Chunk 0 0 53 (ascii
          ''The quick brown fox jumps over the lazy dog and keeps'')] \<rparr>"
    by (simp add: stream_run_def on_assistant_def segment_def flush_def start_run_def
        ascii_def flush_due_def hasParagraphBreak_def isLarge_def isStale_def
        flushEnd_def sentenceEnd_def past_30_percent_def
        LF_def SP_def DOT_def QMARK_def BANG_def
        slice_from_def slice_def slice_index_def trim_def is_white_def Let_def)
  have "stream_run ?s0 [?m1, ?m2] = stream_step (stream_run ?s0 [?m1]) ?m2"
    using run_snoc [of ?s0 "[?m1]" ?m2] by simp
  also have "\<dots> = ?s0\<lparr> currentTurnText := ascii
          ''The quick brown fox jumps over the lazy dog and keeps running through the forest until the evening com'',
        currentTurnSent := 98, lastFlush := 9000,
        emitted := [Chunk 0 0 53 (ascii
          ''The quick brown fox jumps over the lazy dog and keeps''),
          Chunk 0 53 98 (ascii ''running through the forest until the evening'')] \<rparr>"
    unfolding s1
    by (simp add: on_assistant_def segment_def flush_def start_run_def
        ascii_def flush_due_def hasParagraphBreak_def isLarge_def isStale_def
        flushEnd_def sentenceEnd_def past_30_percent_def
        LF_def SP_def DOT_def QMARK_def BANG_def
        slice_from_def slice_def slice_index_def trim_def is_white_def Let_def)
  finally have s2: "stream_run ?s0 [?m1, ?m2] = ?s0\<lparr> currentTurnText := ascii
          ''The quick brown fox jumps over the lazy dog and keeps running through the forest until the evening com'',
        currentTurnSent := 98, lastFlush := 9000,
        emitted := [Chunk 0 0 53 (ascii
          ''The quick brown fox jumps over the lazy dog and keeps''),
          Chunk 0 53 98 (ascii ''running through the forest until the evening'')] \<rparr>" .
  have "stream_run ?s0 ([?m1, ?m2] @ [(9500, ResultMsg [])])
      = stream_step (stream_run ?s0 [?m1, ?m2]) (9500, ResultMsg [])"
    by (rule run_snoc)
  then have s3: "chunks_of_turn 0 (emitted (stream_run ?s0 ([?m1, ?m2] @ [(9500, ResultMsg [])])))
      = [(0, 53), (53, 98), (98, 102)]"
    unfolding s2
    by (simp add: on_result_def start_run_def ascii_def
        slice_from_def slice_index_def trim_def is_white_def Let_def chunks_of_turn_append
        split: option.splits)
  have "stream_step (stream_run ?s0 [?m1]) ?m2 = stream_run ?s0 [?m1, ?m2]"
    using run_snoc [of ?s0 "[?m1]" ?m2] by simp
  then have t: "turn (stream_step (stream_run ?s0 [?m1]) ?m2) = turn (stream_run ?s0 [?m1])"
    unfolding s2 s1 by simp
  have c: "currentTurnSent (stream_run ?s0 [?m1, ?m2]) = 98" unfolding s2 by simp
  from sentOffset_invariant [of 0 "[]" new_tracker 2 "[?m1, ?m2]" "stream_run ?s0 [?m1]" ?m2
      9500 "[]"] nr t
  have "in_order (emitted (stream_run ?s0 ([?m1, ?m2] @ [(9500, ResultMsg [])])))"
    by blast
  with nr c s3 show ?thesis by blast
qed

text \<open>
  C7.  For an assistant message with non-empty text, the Telegram loop detects a new turn
  exactly when the text is shorter than the recorded one; it then appends the recorded
  text to \<open>allResponses\<close> and the new text becomes the current turn; otherwise the new
  text replaces the recorded one and nothing is archived.  The terminal loop detects a
  new turn when the message has an identifier that differs from the recorded (non-empty)
  one, and, for a message without identifier, when the text is shorter than the recorded
  one.  Scenario B, on both channels and at any times: after "Hi", "Hi there",
  "Hi there!" and "Sure," the archive holds "Hi there!" and the current turn is "Sure,".
\<close>

theorem new_turn_detection:
  "(message_text bs \<noteq> [] \<longrightarrow>
      (length (message_text bs) < length (currentTurnText s) \<longrightarrow>
         turn (on_assistant now bs k s) = Suc (turn s) \<and>
         allResponses (on_assistant now bs k s) = allResponses s @ [currentTurnText s] \<and>
         currentTurnText (on_assistant now bs k s) = message_text bs) \<and>
      (\<not> length (message_text bs) < length (currentTurnText s) \<longrightarrow>
         turn (on_assistant now bs k s) = turn s \<and>
         allResponses (on_assistant now bs k s) = allResponses s \<and>
         currentTurnText (on_assistant now bs k s) = message_text bs)) \<and>
   (text \<noteq> [] \<longrightarrow>
      isNewTurn text uuid q =
        (if uuid \<noteq> [] then currentMsgUuid q \<noteq> [] \<and> uuid \<noteq> currentMsgUuid q
         else length text < length (currentTurnTextT q)) \<and>
      (isNewTurn text uuid q \<longrightarrow>
         turnT (terminal_on_text text uuid q) = Suc (turnT q) \<and>
         allResponsesT (terminal_on_text text uuid q)
           = (if currentTurnTextT q \<noteq> [] then allResponsesT q @ [currentTurnTextT q]
              else allResponsesT q) \<and>
         currentTurnTextT (terminal_on_text text uuid q) = text) \<and>
      (\<not> isNewTurn text uuid q \<longrightarrow>
         turnT (terminal_on_text text uuid q) = turnT q \<and>
         allResponsesT (terminal_on_text text uuid q) = allResponsesT q \<and>
         currentTurnTextT (terminal_on_text text uuid q) = text)) \<and>
   allResponses (stream_run (start_run t0 sid tr n)
      [(t1, AssistantMsg [TextBlock (ascii ''Hi'')] k1 u1),
       (t2, AssistantMsg [TextBlock (ascii ''Hi there'')] k2 u2),
       (t3, AssistantMsg [TextBlock (ascii ''Hi there!'')] k3 u3),
       (t4, AssistantMsg [TextBlock (ascii ''Sure,'')] k4 u4)]) = [ascii ''Hi there!''] \<and>
   currentTurnText (stream_run (start_run t0 sid tr n)
      [(t1, AssistantMsg [TextBlock (ascii ''Hi'')] k1 u1),
       (t2, AssistantMsg [TextBlock (ascii ''Hi there'')] k2 u2),
       (t3, AssistantMsg [TextBlock (ascii ''Hi there!'')] k3 u3),
       (t4, AssistantMsg [TextBlock (ascii ''Sure,'')] k4 u4)]) = ascii ''Sure,'' \<and>
   allResponsesT (terminal_on_text (ascii ''Sure,'') [] (terminal_on_text (ascii ''Hi there!'') []
      (terminal_on_text (ascii ''Hi there'') [] (terminal_on_text (ascii ''Hi'') []
         start_terminal)))) = [ascii ''Hi there!''] \<and>
   currentTurnTextT (terminal_on_text (ascii ''Sure,'') [] (terminal_on_text (ascii ''Hi there!'') []
      (terminal_on_text (ascii ''Hi there'') [] (terminal_on_text (ascii ''Hi'') []
         start_terminal)))) = ascii ''Sure,''"
proof -
  have seg: "\<And>x text. turn (segment text x) =
      (if length text < length (currentTurnText x) then Suc (turn x) else turn x) \<and>
    allResponses (segment text x) =
      (if length text < length (currentTurnText x) then allResponses x @ [currentTurnText x]
       else allResponses x) \<and>
    currentTurnText (segment text x) = text"
    by (auto simp: segment_def)
  have 1: "message_text bs \<noteq> [] \<longrightarrow>
      (length (message_text bs) < length (currentTurnText s) \<longrightarrow>
         turn (on_assistant now bs k s) = Suc (turn s) \<and>
         allResponses (on_assistant now bs k s) = allResponses s @ [currentTurnText s] \<and>
         currentTurnText (on_assistant now bs k s) = message_text bs) \<and>
      (\<not> length (message_text bs) < length (currentTurnText s) \<longrightarrow>
         turn (on_assistant now bs k s) = turn s \<and>
         allResponses (on_assistant now bs k s) = allResponses s \<and>
         currentTurnText (on_assistant now bs k s) = message_text bs)"
    by (simp add: on_assistant_def Let_def seg)
  have 2: "text \<noteq> [] \<longrightarrow>
      isNewTurn text uuid q =
        (if uuid \<noteq> [] then currentMsgUuid q \<noteq> [] \<and> uuid \<noteq> currentMsgUuid q
         else length text < length (currentTurnTextT q)) \<and>
      (isNewTurn text uuid q \<longrightarrow>
         turnT (terminal_on_text text uuid q) = Suc (turnT q) \<and>
         allResponsesT (terminal_on_text text uuid q)
           = (if currentTurnTextT q \<noteq> [] then allResponsesT q @ [currentTurnTextT q]
              else allResponsesT q) \<and>
         currentTurnTextT (terminal_on_text text uuid q) = text) \<and>
      (\<not> isNewTurn text uuid q \<longrightarrow>
         turnT (terminal_on_text text uuid q) = turnT q \<and>
         allResponsesT (terminal_on_text text uuid q) = allResponsesT q \<and>
         currentTurnTextT (terminal_on_text text uuid q) = text)"
    by (auto simp: isNewTurn_def terminal_on_text_def Let_def)
  have 3: "allResponses (stream_run (start_run t0 sid tr n)
      [(t1, AssistantMsg [TextBlock (ascii ''Hi'')] k1 u1),
       (t2, AssistantMsg [TextBlock (ascii ''Hi there'')] k2 u2),
       (t3, AssistantMsg [TextBlock (ascii ''Hi there!'')] k3 u3),
       (t4, AssistantMsg [TextBlock (ascii ''Sure,'')] k4 u4)]) = [ascii ''Hi there!''] \<and>
   currentTurnText (stream_run (start_run t0 sid tr n)
      [(t1, AssistantMsg [TextBlock (ascii ''Hi'')] k1 u1),
       (t2, AssistantMsg [TextBlock (ascii ''Hi there'')] k2 u2),
       (t3, AssistantMsg [TextBlock (ascii ''Hi there!'')] k3 u3),
       (t4, AssistantMsg [TextBlock (ascii ''Sure,'')] k4 u4)]) = ascii ''Sure,''"
    by (simp add: stream_run_def on_assistant_def Let_def seg start_run_def ascii_def)
  have 4: "allResponsesT (terminal_on_text (ascii ''Sure,'') [] (terminal_on_text (ascii ''Hi there!'') []
      (terminal_on_text (ascii ''Hi there'') [] (terminal_on_text (ascii ''Hi'') []
         start_terminal)))) = [ascii ''Hi there!''] \<and>
   currentTurnTextT (terminal_on_text (ascii ''Sure,'') [] (terminal_on_text (ascii ''Hi there!'') []
      (terminal_on_text (ascii ''Hi there'') [] (terminal_on_text (ascii ''Hi'') []
         start_terminal)))) = ascii ''Sure,''"
    by (simp add: terminal_on_text_def isNewTurn_def start_terminal_def ascii_def
        slice_from_def slice_index_def Let_def)
  from 1 2 3 4 show ?thesis by blast
qed

theorem new_turn_detection_witness:
  "message_text [TextBlock (ascii ''Sure,'')] \<noteq> [] \<and>
   length (message_text [TextBlock (ascii ''Sure,'')])
     < length (currentTurnText ((start_run 0 [] new_tracker 2)
         \<lparr> currentTurnText := ascii ''Hi there!'' \<rparr>)) \<and>
   allResponses (on_assistant 7 [TextBlock (ascii ''Sure,'')] 0
     ((start_run 0 [] new_tracker 2)\<lparr> currentTurnText := ascii ''Hi there!'' \<rparr>))
     = [ascii ''Hi there!''] \<and>
   currentTurnText (on_assistant 7 [TextBlock (ascii ''Sure,'')] 0
     ((start_run 0 [] new_tracker 2)\<lparr> currentTurnText := ascii ''Hi there!'' \<rparr>))
     = ascii ''Sure,'' \<and>
   \<not> length (message_text [TextBlock (ascii ''Hi there'')])
     < length (currentTurnText ((start_run 0 [] new_tracker 2)
         \<lparr> currentTurnText := ascii ''Hi'' \<rparr>)) \<and>
   allResponses (on_assistant 7 [TextBlock (ascii ''Hi there'')] 0
     ((start_run 0 [] new_tracker 2)\<lparr> currentTurnText := ascii ''Hi'' \<rparr>)) = [] \<and>
   isNewTurn (ascii ''Sure,'') ''m2''
     (start_terminal\<lparr> currentTurnTextT := ascii ''Hi there!'', currentMsgUuid := ''m1'' \<rparr>) \<and>
   allResponsesT (terminal_on_text (ascii ''Sure,'') ''m2''
     (start_terminal\<lparr> currentTurnTextT := ascii ''Hi there!'', currentMsgUuid := ''m1'' \<rparr>))
     = [ascii ''Hi there!''] \<and>
   \<not> isNewTurn (ascii ''Hi there!'') ''m1''
     (start_terminal\<lparr> currentTurnTextT := ascii ''Hi there'', currentMsgUuid := ''m1'' \<rparr>) \<and>
   currentTurnTextT (terminal_on_text (ascii ''Hi there!'') ''m1''
     (start_terminal\<lparr> currentTurnTextT := ascii ''Hi there'', currentMsgUuid := ''m1'' \<rparr>))
     = ascii ''Hi there!''"
proof -
  let ?a = "(start_run 0 [] new_tracker 2)\<lparr> currentTurnText := ascii ''Hi there!'' \<rparr>"
  let ?b = "(start_run 0 [] new_tracker 2)\<lparr> currentTurnText := ascii ''Hi'' \<rparr>"
  let ?p = "start_terminal\<lparr> currentTurnTextT := ascii ''Hi there!'', currentMsgUuid := ''m1'' \<rparr>"
  let ?q = "start_terminal\<lparr> currentTurnTextT := ascii ''Hi there'', currentMsgUuid := ''m1'' \<rparr>"
  have a1: "message_text [TextBlock (ascii ''Sure,'')] \<noteq> []" by (simp add: ascii_def)
  have a2: "length (message_text [TextBlock (ascii ''Sure,'')]) < length (currentTurnText ?a)"
    by (simp add: ascii_def)
  have b1: "message_text [TextBlock (ascii ''Hi there'')] \<noteq> []" by (simp add: ascii_def)
  have b2: "\<not> length (message_text [TextBlock (ascii ''Hi there'')]) < length (currentTurnText ?b)"
    by (simp add: ascii_def)
  have p1: "ascii ''Sure,'' \<noteq> []" by (simp add: ascii_def)
  have p2: "isNewTurn (ascii ''Sure,'') ''m2'' ?p" by (simp add: isNewTurn_def)
  have q1: "ascii ''Hi there!'' \<noteq> []" by (simp add: ascii_def)
  have q2: "\<not> isNewTurn (ascii ''Hi there!'') ''m1'' ?q" by (simp add: isNewTurn_def)
  have ra: "allResponses ?a = []" by (simp add: start_run_def)
  have rb: "allResponses ?b = []" by (simp add: start_run_def)
  have ca: "currentTurnText ?a = ascii ''Hi there!''" by simp
  have rp: "allResponsesT ?p = [] \<and> currentTurnTextT ?p = ascii ''Hi there!''"
    by (simp add: start_terminal_def)
  have ta: "message_text [TextBlock (ascii ''Sure,'')] = ascii ''Sure,''" by simp
  from new_turn_detection [of "[TextBlock (ascii ''Sure,'')]" ?a 7 0 "ascii ''Sure,''" "''m2''" ?p]
    a1 a2 p1 p2
  have A: "allResponses (on_assistant 7 [TextBlock (ascii ''Sure,'')] 0 ?a)
        = allResponses ?a @ [currentTurnText ?a] \<and>
      currentTurnText (on_assistant 7 [TextBlock (ascii ''Sure,'')] 0 ?a)
        = message_text [TextBlock (ascii ''Sure,'')] \<and>
      allResponsesT (terminal_on_text (ascii ''Sure,'') ''m2'' ?p)
        = (if currentTurnTextT ?p \<noteq> [] then allResponsesT ?p @ [currentTurnTextT ?p]
           else allResponsesT ?p)"
    by blast
  from new_turn_detection [of "[TextBlock (ascii ''Hi there'')]" ?b 7 0 "ascii ''Hi there!''"
      "''m1''" ?q] b1 b2 q1 q2
  have B: "allResponses (on_assistant 7 [TextBlock (ascii ''Hi there'')] 0 ?b) = allResponses ?b \<and>
      currentTurnTextT (terminal_on_text (ascii ''Hi there!'') ''m1'' ?q) = ascii ''Hi there!''"
    by blast
  have A': "allResponses (on_assistant 7 [TextBlock (ascii ''Sure,'')] 0 ?a) = [ascii ''Hi there!''] \<and>
      currentTurnText (on_assistant 7 [TextBlock (ascii ''Sure,'')] 0 ?a) = ascii ''Sure,'' \<and>
      allResponsesT (terminal_on_text (ascii ''Sure,'') ''m2'' ?p) = [ascii ''Hi there!'']"
    using A unfolding ra ca ta using rp q1 by simp
  have B': "allResponses (on_assistant 7 [TextBlock (ascii ''Hi there'')] 0 ?b) = []"
    using B rb by simp
  from a1 a2 b2 p2 q2 A' B B' show ?thesis by blast
qed

text \<open>
  C2 as stated fails on the terminal channel: \<open>requestTerminalApproval\<close> arms no timeout
  and keeps no pending map, so an approval that gets no answer is still waiting after
  600000 ms, and after as many more.
\<close>

theorem terminal_approval_never_times_out:
  "requestTerminalApproval [Elapse 600000, Elapse 600000] = Waiting"
  by (simp add: requestTerminalApproval_def)

text \<open>
  C2, amended.  On Telegram, after every sequence of requests, button presses and passing
  of time: no promise has been resolved more than once; a promise that exists and is
  unresolved has its timeout armed, due in the future and at most 600000 ms away; when
  the clock has advanced by 600000 ms every armed timeout fires, each of these promises
  is resolved as timed out (which the caller sees as rejected), the map is empty and every
  promise has been resolved exactly once.  A button press for a pending id resolves that
  promise to approved or rejected and removes the id, and pressing again is answered
  "Expired" and changes nothing else, as is every press for an id that is not in the map.
  Scenario D: one request and 600000 ms without a decision give one resolution, timed out,
  and an empty map.  On the terminal there is no timeout: the approval is resolved by the
  first line of input, approved exactly when the line starts with y or Y, and never by
  the passing of time.
\<close>

theorem approval_resolves_once:
  "resolved_times p (gate_run es) \<le> 1 \<and>
   (p < requests (gate_run es) \<and> resolved_times p (gate_run es) = 0 \<longrightarrow>
      (\<exists>d ident. (p, d, ident) \<in> set (timers (gate_run es)) \<and> clock (gate_run es) < d \<and>
         d \<le> clock (gate_run es) + APPROVAL_TIMEOUT)) \<and>
   (clock (gate_run es) + APPROVAL_TIMEOUT \<le> now \<longrightarrow>
      resolutions (gate_run (es @ [Tick now]))
        = resolutions (gate_run es) @ map (\<lambda>t. (fst t, TimedOut)) (timers (gate_run es)) \<and>
      timers (gate_run (es @ [Tick now])) = [] \<and>
      pendingApprovals (gate_run (es @ [Tick now])) = Map.empty \<and>
      (p < requests (gate_run es) \<longrightarrow> resolved_times p (gate_run (es @ [Tick now])) = 1)) \<and>
   (parse_callback d = Some (approve, ident) \<and> pendingApprovals s ident = Some q \<longrightarrow>
      resolutions (callback_query True d s)
        = resolutions s @ [(q, if approve then Approved else Rejected)] \<and>
      pendingApprovals (callback_query True d s) ident = None \<and>
      callback_query True d (callback_query True d s)
        = (callback_query True d s)\<lparr> answers := answers (callback_query True d s) @ [Expired] \<rparr>) \<and>
   (parse_callback d = Some (approve, ident) \<and> pendingApprovals s ident = None \<longrightarrow>
      callback_query True d s = s\<lparr> answers := answers s @ [Expired] \<rparr>) \<and>
   resolutions (gate_run [Request ident True, Tick 600000]) = [(0, TimedOut)] \<and>
   pendingApprovals (gate_run [Request ident True, Tick 600000]) ident = None \<and>
   timers (gate_run [Request ident True, Tick 600000]) = [] \<and>
   requestTerminalApproval ts
     = (case first_line ts of None \<Rightarrow> Waiting | Some a \<Rightarrow> Answered (says_yes a))"
proof -
  let ?s = "gate_run es"
  have inv: "gate_inv ?s" and tinv: "time_inv ?s" using gate_run_inv by blast+
  have "distinct (map fst (resolutions ?s))" using inv by (simp add: gate_inv_def)
  then have 1: "resolved_times p ?s \<le> 1"
    unfolding resolved_times_def by (rule at_most_once)
  have 2: "p < requests ?s \<and> resolved_times p ?s = 0 \<longrightarrow>
      (\<exists>d ident. (p, d, ident) \<in> set (timers ?s) \<and> clock ?s < d \<and>
         d \<le> clock ?s + APPROVAL_TIMEOUT)"
  proof
    assume a: "p < requests ?s \<and> resolved_times p ?s = 0"
    then have "length (filter (\<lambda>r. fst r = p) (resolutions ?s)) = 0"
      by (simp add: resolved_times_def)
    then have "p \<notin> fst ` set (resolutions ?s)"
      using never_resolved [of p "resolutions ?s"] by blast
    then have "p \<in> fst ` set (timers ?s)" using inv a unfolding gate_inv_def by blast
    then obtain x where x: "x \<in> set (timers ?s)" and px: "fst x = p" by auto
    obtain d ident where xe: "x = (p, d, ident)" using px by (cases x) auto
    have "clock ?s < d \<and> d \<le> clock ?s + APPROVAL_TIMEOUT"
      using tinv x xe unfolding time_inv_def by force
    then show "\<exists>d ident. (p, d, ident) \<in> set (timers ?s) \<and> clock ?s < d \<and>
         d \<le> clock ?s + APPROVAL_TIMEOUT"
      using x xe by blast
  qed
  have 3: "clock ?s + APPROVAL_TIMEOUT \<le> now \<longrightarrow>
      resolutions (gate_run (es @ [Tick now]))
        = resolutions ?s @ map (\<lambda>t. (fst t, TimedOut)) (timers ?s) \<and>
      timers (gate_run (es @ [Tick now])) = [] \<and>
      pendingApprovals (gate_run (es @ [Tick now])) = Map.empty \<and>
      (p < requests ?s \<longrightarrow> resolved_times p (gate_run (es @ [Tick now])) = 1)"
  proof
    assume late: "clock ?s + APPROVAL_TIMEOUT \<le> now"
    let ?t = "gate_run (es @ [Tick now])"
    have t: "?t = tick now ?s" by (simp add: gate_run_snoc)
    have "\<forall>x \<in> set (timers ?s). fst (snd x) \<le> max (clock ?s) now"
      using tinv late unfolding time_inv_def by fastforce
    then have due: "filter (\<lambda>t. fst (snd t) \<le> max (clock ?s) now) (timers ?s) = timers ?s"
      by simp
    have facts: "gate_inv ?t \<and> timers ?t = filter (\<lambda>x. fst x \<notin> fst ` set (timers ?s)) (timers ?s) \<and>
        resolutions ?t = resolutions ?s @ map (\<lambda>t. (fst t, TimedOut)) (timers ?s) \<and>
        requests ?t = requests ?s"
      using tick_facts [OF inv, of now] unfolding t due by simp
    have none: "timers ?t = []" using facts by (simp add: filter_empty_conv)
    have "\<forall>i. pendingApprovals ?t i = None"
    proof
      fix i
      show "pendingApprovals ?t i = None"
      proof (cases "pendingApprovals ?t i")
        case None
        then show ?thesis .
      next
        case (Some r)
        then have "\<exists>d. (r, d, i) \<in> set (timers ?t)"
          using facts unfolding gate_inv_def by blast
        then show ?thesis using none by simp
      qed
    qed
    then have empty: "pendingApprovals ?t = Map.empty" by auto
    have once: "p < requests ?s \<longrightarrow> resolved_times p ?t = 1"
    proof
      assume "p < requests ?s"
      then have "p < requests ?t" using facts by simp
      moreover have "p \<notin> fst ` set (timers ?t)" using none by simp
      ultimately have "p \<in> fst ` set (resolutions ?t)"
        using facts unfolding gate_inv_def by blast
      then have "1 \<le> resolved_times p ?t"
        unfolding resolved_times_def by (rule at_least_once)
      moreover from facts have "gate_inv ?t" by blast
      then have "distinct (map fst (resolutions ?t))" by (simp add: gate_inv_def)
      then have "resolved_times p ?t \<le> 1"
        unfolding resolved_times_def by (rule at_most_once)
      ultimately show "resolved_times p ?t = 1" by linarith
    qed
    from facts none empty once
    show "resolutions ?t = resolutions ?s @ map (\<lambda>t. (fst t, TimedOut)) (timers ?s) \<and>
      timers ?t = [] \<and> pendingApprovals ?t = Map.empty \<and>
      (p < requests ?s \<longrightarrow> resolved_times p ?t = 1)"
      by blast
  qed
  have 4: "parse_callback d = Some (approve, ident) \<and> pendingApprovals s ident = Some q \<longrightarrow>
      resolutions (callback_query True d s)
        = resolutions s @ [(q, if approve then Approved else Rejected)] \<and>
      pendingApprovals (callback_query True d s) ident = None \<and>
      callback_query True d (callback_query True d s)
        = (callback_query True d s)\<lparr> answers := answers (callback_query True d s) @ [Expired] \<rparr>"
    by (simp add: callback_query_def)
  have 5: "parse_callback d = Some (approve, ident) \<and> pendingApprovals s ident = None \<longrightarrow>
      callback_query True d s = s\<lparr> answers := answers s @ [Expired] \<rparr>"
    by (simp add: callback_query_def)
  have 6: "resolutions (gate_run [Request ident True, Tick 600000]) = [(0, TimedOut)] \<and>
      pendingApprovals (gate_run [Request ident True, Tick 600000]) ident = None \<and>
      timers (gate_run [Request ident True, Tick 600000]) = []"
    by (simp add: gate_run_def new_gate_def requestTelegramApproval_def tick_def
        timeout_fires_def APPROVAL_TIMEOUT_def)
  have 7: "requestTerminalApproval ts
     = (case first_line ts of None \<Rightarrow> Waiting | Some a \<Rightarrow> Answered (says_yes a))"
    by (rule terminal_first_line)
  from 1 2 3 4 5 6 7 show ?thesis by blast
qed

theorem approval_resolves_once_witness:
  "0 < requests (gate_run [Request (ascii ''k3x9ab'') True]) \<and>
   resolved_times 0 (gate_run [Request (ascii ''k3x9ab'') True]) = 0 \<and>
   timers (gate_run [Request (ascii ''k3x9ab'') True]) = [(0, 600000, ascii ''k3x9ab'')] \<and>
   clock (gate_run [Request (ascii ''k3x9ab'') True]) + APPROVAL_TIMEOUT \<le> 600000 \<and>
   resolutions (gate_run ([Request (ascii ''k3x9ab'') True] @ [Tick 600000])) = [(0, TimedOut)] \<and>
   resolved_times 0 (gate_run ([Request (ascii ''k3x9ab'') True] @ [Tick 600000])) = 1 \<and>
   parse_callback (ascii ''approve_k3x9ab'') = Some (True, ascii ''k3x9ab'') \<and>
   pendingApprovals (gate_run [Request (ascii ''k3x9ab'') True]) (ascii ''k3x9ab'') = Some 0 \<and>
   resolutions (callback_query True (ascii ''approve_k3x9ab'')
     (gate_run [Request (ascii ''k3x9ab'') True])) = [(0, Approved)] \<and>
   pendingApprovals (gate_run [Request (ascii ''k3x9ab'') True, Tick 600000]) (ascii ''k3x9ab'')
     = None \<and>
   answers (callback_query True (ascii ''approve_k3x9ab'')
     (gate_run [Request (ascii ''k3x9ab'') True, Tick 600000])) = [Expired] \<and>
   requestTerminalApproval [Elapse 700000, Line ''Yes'', Line ''no''] = Answered True"
proof -
  let ?i = "ascii ''k3x9ab''"
  let ?d = "ascii ''approve_k3x9ab''"
  let ?s = "gate_run [Request ?i True]"
  let ?t = "gate_run [Request ?i True, Tick 600000]"
  have r: "requests ?s = 1" "resolutions ?s = []" "clock ?s = 0"
    "timers ?s = [(0, 600000, ?i)]" "pendingApprovals ?s ?i = Some 0"
    by (simp_all add: gate_run_def new_gate_def requestTelegramApproval_def APPROVAL_TIMEOUT_def)
  have z: "resolved_times 0 ?s = 0" by (simp add: resolved_times_def r)
  have late: "clock ?s + APPROVAL_TIMEOUT \<le> 600000" by (simp add: r APPROVAL_TIMEOUT_def)
  have pc: "parse_callback ?d = Some (True, ?i)" by (simp add: parse_callback_def ascii_def line_terminator_def)
  have fl: "first_line [Elapse 700000, Line ''Yes'', Line ''no''] = Some ''Yes''" by simp
  note T = approval_resolves_once [of 0 "[Request ?i True]" 600000 ?d True ?i ?s 0
      "[Elapse 700000, Line ''Yes'', Line ''no'']"]
  have t3: "resolutions (gate_run ([Request ?i True] @ [Tick 600000]))
        = resolutions ?s @ map (\<lambda>t. (fst t, TimedOut)) (timers ?s) \<and>
      timers (gate_run ([Request ?i True] @ [Tick 600000])) = [] \<and>
      pendingApprovals (gate_run ([Request ?i True] @ [Tick 600000])) = Map.empty \<and>
      (0 < requests ?s \<longrightarrow> resolved_times 0 (gate_run ([Request ?i True] @ [Tick 600000])) = 1)"
    using T [THEN conjunct2, THEN conjunct2, THEN conjunct1] late by blast
  have a1: "resolutions (gate_run ([Request ?i True] @ [Tick 600000])) = [(0, TimedOut)]"
    using t3 by (simp add: r)
  have a2: "resolved_times 0 (gate_run ([Request ?i True] @ [Tick 600000])) = 1"
    using t3 by (simp add: r)
  have pn: "pendingApprovals ?t ?i = None" using t3 by simp
  have t4: "resolutions (callback_query True ?d ?s)
        = resolutions ?s @ [(0, if True then Approved else Rejected)]"
    using T [THEN conjunct2, THEN conjunct2, THEN conjunct2, THEN conjunct1] pc r(5) by blast
  have a3: "resolutions (callback_query True ?d ?s) = [(0, Approved)]"
    using t4 by (simp add: r)
  have t7: "requestTerminalApproval [Elapse 700000, Line ''Yes'', Line ''no'']
      = (case first_line [Elapse 700000, Line ''Yes'', Line ''no''] of
           None \<Rightarrow> Waiting | Some a \<Rightarrow> Answered (says_yes a))"
    using T by blast
  have a4: "requestTerminalApproval [Elapse 700000, Line ''Yes'', Line ''no''] = Answered True"
    unfolding t7 by (simp add: says_yes_def)
  note U = approval_resolves_once [of 0 "[Request ?i True]" 600000 ?d True ?i ?t 0 "[]"]
  have B: "callback_query True ?d ?t = ?t\<lparr> answers := answers ?t @ [Expired] \<rparr>"
    using U [THEN conjunct2, THEN conjunct2, THEN conjunct2, THEN conjunct2, THEN conjunct1]
      pc pn by blast
  have "answers ?t = []"
    by (simp add: gate_run_def new_gate_def requestTelegramApproval_def tick_def
        timeout_fires_def APPROVAL_TIMEOUT_def)
  then have B': "answers (callback_query True ?d ?t) = [Expired]" unfolding B by simp
  have pos: "0 < requests ?s" by (simp add: r)
  from pos z r(4) late a1 a2 pc r(5) a3 pn B' a4 show ?thesis by blast
qed

text \<open>
  C9.  \<open>parseLine\<close> never throws: for every line and whatever \<open>JSON.parse\<close> does, it
  returns a message or null.  A line that is not JSON gives null; so does a line on which
  the body throws (the line \<open>null\<close> makes \<open>d.type\<close> throw a TypeError, which is caught);
  so does a value whose type is neither \<open>user\<close> nor \<open>assistant\<close>.  The loop of
  \<open>syncFile\<close> never fails; its result is that of handling, in the order of the lines,
  the messages of the lines that parse; and a line that gives null changes nothing: the
  run ends in the same state, with the same messages saved, as without that line.
\<close>

theorem parseLine_never_throws:
  "(\<exists>r. parseLine env line = Inr r) \<and>
   (JSON_parse env line = Inl SyntaxError \<longrightarrow> parseLine env line = Inr None) \<and>
   (JSON_parse env line = Inr Null \<longrightarrow>
      parseLine_try env line = Inl TypeError \<and> parseLine env line = Inr None) \<and>
   (JSON_parse env line = Inr d \<and> get_property d (ascii ''type'') = Inr ty \<and>
    ty \<noteq> Str (ascii ''user'') \<and> ty \<noteq> Str (ascii ''assistant'') \<longrightarrow>
      parseLine env line = Inr None) \<and>
   sync_loop env s lines = Inr (foldl (sync_message env) s (decoded env lines)) \<and>
   decoded env (xs @ ys) = decoded env xs @ decoded env ys \<and>
   (parseLine env line = Inr None \<longrightarrow>
      decoded env (pre @ line # post) = decoded env (pre @ post) \<and>
      sync_loop env s (pre @ line # post) = sync_loop env s (pre @ post))"
proof -
  have 1: "\<exists>r. parseLine env line = Inr r" using parseLine_cases [of env line] by auto
  have 2: "JSON_parse env line = Inl SyntaxError \<longrightarrow> parseLine env line = Inr None"
    by (simp add: parseLine_def parseLine_try_def)
  have 3: "JSON_parse env line = Inr Null \<longrightarrow>
      parseLine_try env line = Inl TypeError \<and> parseLine env line = Inr None"
    by (simp add: parseLine_def parseLine_try_def parse_value_def)
  have 4: "JSON_parse env line = Inr d \<and> get_property d (ascii ''type'') = Inr ty \<and>
    ty \<noteq> Str (ascii ''user'') \<and> ty \<noteq> Str (ascii ''assistant'') \<longrightarrow>
      parseLine env line = Inr None"
  proof
    assume a: "JSON_parse env line = Inr d \<and> get_property d (ascii ''type'') = Inr ty \<and>
      ty \<noteq> Str (ascii ''user'') \<and> ty \<noteq> Str (ascii ''assistant'')"
    then have "parse_value env d = Inr None \<or> (\<exists>e. parse_value env d = Inl e)"
      using parse_value_other_type [of d ty env] by blast
    then show "parseLine env line = Inr None"
      using a by (auto simp: parseLine_def parseLine_try_def)
  qed
  have 5: "sync_loop env s lines = Inr (foldl (sync_message env) s (decoded env lines))"
    by (rule sync_loop_decoded)
  have 6: "decoded env (xs @ ys) = decoded env xs @ decoded env ys"
    by (rule decoded_append)
  have 7: "parseLine env line = Inr None \<longrightarrow>
      decoded env (pre @ line # post) = decoded env (pre @ post) \<and>
      sync_loop env s (pre @ line # post) = sync_loop env s (pre @ post)"
    by (simp add: decoded_append sync_loop_skip)
  from 1 2 3 4 5 6 7 show ?thesis by blast
qed

theorem parseLine_never_throws_witness:
  "JSON_parse sample_env (ascii ''not json'') = Inl SyntaxError \<and>
   parseLine sample_env (ascii ''not json'') = Inr None \<and>
   JSON_parse sample_env (ascii ''null'') = Inr Null \<and>
   parseLine_try sample_env (ascii ''null'') = Inl TypeError \<and>
   parseLine sample_env (ascii ''null'') = Inr None \<and>
   parseLine sample_env (ascii ''progress record'') = Inr None \<and>
   sync_loop sample_env sync_start
     ([ascii ''user record''] @ ascii ''not json'' # [ascii ''null'', ascii ''progress record''])
     = Inr \<lparr> lastAssistantText = [], synced = 1, saved = [(User, ascii ''hello'')],
             signalled = [] \<rparr>"
proof -
  let ?bad = "ascii ''not json''"
  let ?null = "ascii ''null''"
  let ?prog = "ascii ''progress record''"
  let ?user = "ascii ''user record''"
  have b: "JSON_parse sample_env ?bad = Inl SyntaxError"
    by (simp add: sample_env_def ascii_def)
  have n: "JSON_parse sample_env ?null = Inr Null"
    by (simp add: sample_env_def ascii_def)
  have p: "JSON_parse sample_env ?prog = Inr (Obj [(ascii ''type'', Str (ascii ''progress''))])"
    by (simp add: sample_env_def ascii_def)
  have pt: "get_property (Obj [(ascii ''type'', Str (ascii ''progress''))]) (ascii ''type'')
      = Inr (Str (ascii ''progress''))"
    by simp
  have ne: "Str (ascii ''progress'') \<noteq> Str (ascii ''user'')"
    "Str (ascii ''progress'') \<noteq> Str (ascii ''assistant'')"
    by (simp_all add: ascii_def)
  have B: "parseLine sample_env ?bad = Inr None"
    using parseLine_never_throws [of sample_env ?bad] b by blast
  have N: "parseLine_try sample_env ?null = Inl TypeError \<and> parseLine sample_env ?null = Inr None"
    using parseLine_never_throws [of sample_env ?null] n by blast
  have P: "parseLine sample_env ?prog = Inr None"
    using parseLine_never_throws [of sample_env ?prog
        "Obj [(ascii ''type'', Str (ascii ''progress''))]" "Str (ascii ''progress'')"]
      p pt ne by blast
  have S1: "sync_loop sample_env sync_start ([?user] @ ?bad # [?null, ?prog])
      = sync_loop sample_env sync_start ([?user] @ [?null, ?prog])"
    using parseLine_never_throws [of sample_env ?bad _ _ sync_start _ _ _ "[?user]" "[?null, ?prog]"]
      B by blast
  have U: "parseLine sample_env ?user = Inr (Some \<lparr> pm_type = user_text, pm_text = ascii ''hello'',
      pm_timestamp = Str (ascii ''2026-01-01T00:00:00.000Z''), pm_sessionId = Str [] \<rparr>)"
    by (simp add: parseLine_def parseLine_try_def parse_value_def sample_env_def skipTypes_def
        or_else_def ascii_def Let_def)
  have S2: "sync_loop sample_env sync_start ([?user] @ [?null, ?prog])
      = Inr \<lparr> lastAssistantText = [], synced = 1, saved = [(User, ascii ''hello'')],
             signalled = [] \<rparr>"
    using U N P
    by (simp add: sync_message_def flushAssistant_def sync_start_def sample_env_def Let_def)
  from b B n N P S1 S2 show ?thesis by simp
qed

end
